theory Spec2Isabelle
  imports Main
begin

section \<open>The loader script \<^verbatim>\<open>run.py\<close>\<close>

text \<open>
  \<^verbatim>\<open>run.py\<close> reads three environment variables, decodes the Neo4j configuration,
  and (unless the run mode is \<^verbatim>\<open>test\<close>) connects to the graph, downloads nine
  datasources, runs twelve parsers and loads their containers into the graph.

  Everything the script does to the outside (the datasource adapters, the parsers, the
  NodeSets and RelationshipSets, the py2neo graph) lives in other packages. The model
  records each such call, in order, in a trace, together with what the call did: it
  returned a value or it raised. What a call does is given by a \<open>world\<close>, a function of
  the call and of everything that happened before it. Logging is not modelled.
\<close>

subsection \<open>Values, exceptions, external objects\<close>

text \<open>
  The exceptions the script can meet. In Python JSONDecodeError is a subclass of
  ValueError; \<open>ValueError\<close> stands for a ValueError that is not a JSONDecodeError, which
  the handler of line 23 does not catch.
\<close>

datatype exn =
    JSONDecodeError string
  | ValueError string
  | RecursionError string
  | TypeError
  | KeyError string
  | OtherError string

text \<open>What \<^verbatim>\<open>json.loads\<close> returns. No number is computed with; a float keeps its text.\<close>

datatype json =
    JNull
  | JBool bool
  | JInt int
  | JFloat string
  | JStr string
  | JList "json list"
  | JDict "(string \<times> json) list"

text \<open>
  Values returned by the adapters (a local instance handle, a version identifier,
  \<^verbatim>\<open>None\<close>). \<open>truthy\<close> is Python's truth test, as used by \<^verbatim>\<open>if not x\<close>.
\<close>

datatype pyval = PyNone | PyStr string | PyObj string

fun truthy :: "pyval \<Rightarrow> bool" where
  "truthy PyNone = False"
| "truthy (PyStr s) = (s \<noteq> [])"
| "truthy (PyObj n) = True"

datatype datasource =
  NcbiGene | BigWordList | Ensembl | Refseq | Uniprot | Gtex | Reactome | NcbiTaxonomy
  | GeneOntology

datatype parser_class =
  NcbiGeneParser | BigWordListParser | EnsemblEntityParser | EnsemblMappingParser
  | RefseqEntityParser | RefseqCodesParser | UniprotKnowledgebaseParser
  | GeneOntologyAssociationParser | GtexMetadataParser | GtexDataParser
  | ReactomePathwayParser | ReactomeMappingParser

text \<open>NodeSets and RelationshipSets are objects of another package, known by reference.\<close>

datatype nodeset_ref = NodeSetRef string

datatype relationshipset_ref = RelationshipSetRef string

record container =
  nodesets :: "nodeset_ref list"
  relationshipsets :: "relationshipset_ref list"

text \<open>
  A parser object, as far as the script touches it. The constructor is taken to start
  with no datasource instances, no taxid and an empty container.
\<close>

record parser =
  parser_class :: parser_class
  root_dir :: string
  datasource_instances :: "pyval list"
  taxid :: "string option"
  container :: container

text \<open>\<^verbatim>\<open>py2neo.Graph(host=.., user=.., password=.., secure=.., verify=False)\<close>\<close>

datatype graph = Graph json json json json bool

subsection \<open>Calls, traces and the world\<close>

datatype call =
    New_Graph json json json json bool
  | New_Datasource datasource string
  | Latest_Local_Instance datasource
  | Latest_Remote_Version datasource
  | Download datasource "pyval option" "string list option"
  | New_Parser parser_class string
  | Run_With_Mounted_Arguments nat
  | NodeSet_Create_Index nodeset_ref graph
  | RelationshipSet_Create_Index relationshipset_ref graph
  | NodeSet_Merge nodeset_ref graph
  | RelationshipSet_Merge relationshipset_ref graph

datatype reply = Returns pyval | Raises exn

type_synonym event = "call \<times> reply"

text \<open>
  \<open>respond\<close>: what an external call does, given the history. \<open>parse_result\<close>: the
  container a parser holds once its \<^verbatim>\<open>run_with_mounted_arguments\<close> has returned.
  \<open>json_loads\<close>: \<^verbatim>\<open>json.loads\<close> on a string.
\<close>

record world =
  respond :: "event list \<Rightarrow> call \<Rightarrow> reply"
  parse_result :: "event list \<Rightarrow> parser \<Rightarrow> container"
  json_loads :: "string \<Rightarrow> exn + json"

text \<open>
  The state of a run: the trace so far and the parser objects, a parser being referred
  to by its position in \<open>heap\<close>.
\<close>

record state =
  trace :: "event list"
  heap :: "parser list"

type_synonym 'a action = "state \<Rightarrow> (exn + 'a) \<times> state"

definition return :: "'a \<Rightarrow> 'a action" where
  "return x s = (Inr x, s)"

definition lift :: "exn + 'a \<Rightarrow> 'a action" where
  "lift r s = (r, s)"

text \<open>Sequencing: an exception of the first statement skips the rest.\<close>

definition bind :: "'a action \<Rightarrow> ('a \<Rightarrow> 'b action) \<Rightarrow> 'b action" where
  "bind m f s = (case m s of (Inl e, s') \<Rightarrow> (Inl e, s') | (Inr x, s') \<Rightarrow> f x s')"

text \<open>\<^verbatim>\<open>for x in xs: body(x)\<close>\<close>

fun for_each :: "('a \<Rightarrow> unit action) \<Rightarrow> 'a list \<Rightarrow> unit action" where
  "for_each body [] = return ()"
| "for_each body (x # xs) = bind (body x) (\<lambda>_. for_each body xs)"

definition extern :: "world \<Rightarrow> call \<Rightarrow> pyval action" where
  "extern w c s =
     (let r = respond w (trace s) c;
          s' = s\<lparr>trace := trace s @ [(c, r)]\<rparr>
      in case r of Returns v \<Rightarrow> (Inr v, s') | Raises e \<Rightarrow> (Inl e, s'))"

subsection \<open>The functions of \<^verbatim>\<open>run.py\<close>\<close>

text \<open>
  \<^verbatim>\<open>parser.run_with_mounted_arguments()\<close>: an external call that fills the container
  of the parser object in place.
\<close>

definition run_with_mounted_arguments :: "world \<Rightarrow> nat \<Rightarrow> unit action" where
  "run_with_mounted_arguments w p s =
     (let r = respond w (trace s) (Run_With_Mounted_Arguments p);
          s' = s\<lparr>trace := trace s @ [(Run_With_Mounted_Arguments p, r)]\<rparr>
      in case r of
           Raises e \<Rightarrow> (Inl e, s')
         | Returns v \<Rightarrow>
             (Inr (),
              s'\<lparr>heap := (heap s)[p := (heap s ! p)
                   \<lparr>container := parse_result w (trace s) (heap s ! p)\<rparr>]\<rparr>))"

definition run_parser :: "world \<Rightarrow> nat \<Rightarrow> nat action" where
  "run_parser w p = bind (run_with_mounted_arguments w p) (\<lambda>_. return p)"

text \<open>Reading \<^verbatim>\<open>parser.container\<close>.\<close>

definition get_container :: "nat \<Rightarrow> container action" where
  "get_container p s = (Inr (container (heap s ! p)), s)"

definition create_index :: "world \<Rightarrow> graph \<Rightarrow> nat list \<Rightarrow> unit action" where
  "create_index w graph parser_list =
     for_each (\<lambda>p.
       bind (get_container p) (\<lambda>c.
       bind (for_each (\<lambda>relationshipset.
               bind (extern w (RelationshipSet_Create_Index relationshipset graph))
                 (\<lambda>_. return ()))
             (relationshipsets c)) (\<lambda>_.
       bind (get_container p) (\<lambda>c'.
         for_each (\<lambda>nodeset.
               bind (extern w (NodeSet_Create_Index nodeset graph)) (\<lambda>_. return ()))
             (nodesets c')))))
       parser_list"

definition create_nodesets :: "world \<Rightarrow> graph \<Rightarrow> nat list \<Rightarrow> unit action" where
  "create_nodesets w graph parser_list =
     for_each (\<lambda>p.
       bind (get_container p) (\<lambda>c.
         for_each (\<lambda>nodeset.
               bind (extern w (NodeSet_Merge nodeset graph)) (\<lambda>_. return ()))
             (nodesets c)))
       parser_list"

definition create_relationshipsets :: "world \<Rightarrow> graph \<Rightarrow> nat list \<Rightarrow> unit action" where
  "create_relationshipsets w graph parser_list =
     for_each (\<lambda>p.
       bind (get_container p) (\<lambda>c.
         for_each (\<lambda>relset.
               bind (extern w (RelationshipSet_Merge relset graph)) (\<lambda>_. return ()))
             (relationshipsets c)))
       parser_list"

subsection \<open>Module level: environment and configuration\<close>

record env =
  ROOT_DIR :: "string option"
  RUN_MODE :: "string option"
  NEO4J :: "string option"

text \<open>\<^verbatim>\<open>os.getenv(name, default)\<close>\<close>

definition getenv :: "string option \<Rightarrow> string \<Rightarrow> string" where
  "getenv v d = (case v of None \<Rightarrow> d | Some s \<Rightarrow> s)"

text \<open>\<^verbatim>\<open>s.replace("'", '"')\<close>: every character 0x27 becomes the character 0x22.\<close>

definition replace_quotes :: "string \<Rightarrow> string" where
  "replace_quotes s = map (\<lambda>c. if c = CHR 0x27 then CHR 0x22 else c) s"

text \<open>
  Lines 18 to 27. \<^verbatim>\<open>json.loads(None)\<close> raises TypeError, which the handler does not
  catch; only a JSONDecodeError of the first attempt leads to the second one.
\<close>

definition neo4j_config_dict :: "(string \<Rightarrow> exn + json) \<Rightarrow> string option \<Rightarrow> exn + json" where
  "neo4j_config_dict loads NEO4J_CONFIG_STRING =
     (case NEO4J_CONFIG_STRING of
        None \<Rightarrow> Inl TypeError
      | Some s \<Rightarrow>
          (case loads s of
             Inr d \<Rightarrow> Inr d
           | Inl (JSONDecodeError m) \<Rightarrow> loads (replace_quotes s)
           | Inl e \<Rightarrow> Inl e))"

text \<open>
  \<^verbatim>\<open>str.lower()\<close> on the characters an Isabelle \<open>char\<close> holds, read as the code points
  0 to 255: A to Z and the Latin-1 capitals (192 to 222 without the multiplication
  sign 215) move up by 32.
\<close>

definition lower_char :: "char \<Rightarrow> char" where
  "lower_char c =
     (let n = (of_char c :: nat)
      in if (65 \<le> n \<and> n \<le> 90) \<or> (192 \<le> n \<and> n \<le> 222 \<and> n \<noteq> 215)
         then char_of (n + 32) else c)"

definition lower :: "string \<Rightarrow> string" where
  "lower s = map lower_char s"

text \<open>\<^verbatim>\<open>d[key]\<close> on a decoded JSON value with a string key.\<close>

fun getitem :: "json \<Rightarrow> string \<Rightarrow> exn + json" where
  "getitem (JDict kvs) k = (case map_of kvs k of None \<Rightarrow> Inl (KeyError k) | Some v \<Rightarrow> Inr v)"
| "getitem _ k = Inl TypeError"

subsection \<open>The main block\<close>

text \<open>Line 91: the four lookups, in argument order, then the constructor call.\<close>

definition connect :: "world \<Rightarrow> json \<Rightarrow> graph action" where
  "connect w cfg =
     bind (lift (getitem cfg ''host'')) (\<lambda>h.
     bind (lift (getitem cfg ''user'')) (\<lambda>u.
     bind (lift (getitem cfg ''password'')) (\<lambda>pw.
     bind (lift (getitem cfg ''secure'')) (\<lambda>sec.
     bind (extern w (New_Graph h u pw sec False)) (\<lambda>_.
       return (Graph h u pw sec False))))))"

text \<open>
  Lines 95 to 134 are nine blocks of one shape,
  \<^verbatim>\<open>x = X(ROOT_DIR); if not x.latest_local_instance(): x.download(...)\<close>,
  which differ in the adapter class and in the arguments of \<^verbatim>\<open>download\<close>: whether a
  version is passed (then it is \<^verbatim>\<open>x.latest_remote_version()\<close>) and whether
  \<^verbatim>\<open>taxids\<close> is passed. The table lists the blocks in source order.
\<close>

datatype version_arg = No_Version | Latest_Remote

definition download_blocks :: "(datasource \<times> version_arg \<times> string list option) list" where
  "download_blocks =
     [(NcbiGene, No_Version, None),
      (BigWordList, No_Version, None),
      (Ensembl, Latest_Remote, Some [''9606'']),
      (Refseq, Latest_Remote, None),
      (Uniprot, No_Version, None),
      (Gtex, No_Version, None),
      (Reactome, No_Version, None),
      (NcbiTaxonomy, No_Version, None),
      (GeneOntology, No_Version, Some [''9606''])]"

definition download_block ::
  "world \<Rightarrow> string \<Rightarrow> datasource \<times> version_arg \<times> string list option \<Rightarrow> unit action" where
  "download_block w root b =
     (case b of (ds, va, taxids) \<Rightarrow>
        bind (extern w (New_Datasource ds root)) (\<lambda>_.
        bind (extern w (Latest_Local_Instance ds)) (\<lambda>inst.
          if \<not> truthy inst then
            (case va of
               No_Version \<Rightarrow>
                 bind (extern w (Download ds None taxids)) (\<lambda>_. return ())
             | Latest_Remote \<Rightarrow>
                 bind (extern w (Latest_Remote_Version ds)) (\<lambda>v.
                 bind (extern w (Download ds (Some v) taxids)) (\<lambda>_. return ())))
          else return ())))"

text \<open>
  Lines 138 to 196 are twelve blocks of one shape: construct the parser, append the
  latest local instance of one or two datasources, set \<^verbatim>\<open>taxid\<close> (not in every
  block), and append \<^verbatim>\<open>run_parser(parser)\<close> to \<^verbatim>\<open>parsers_done\<close>.
\<close>

definition parser_blocks :: "(parser_class \<times> datasource list \<times> string option) list" where
  "parser_blocks =
     [(NcbiGeneParser, [NcbiGene], Some ''9606''),
      (BigWordListParser, [BigWordList], None),
      (EnsemblEntityParser, [Ensembl], Some ''9606''),
      (EnsemblMappingParser, [Ensembl], Some ''9606''),
      (RefseqEntityParser, [Refseq], Some ''9606''),
      (RefseqCodesParser, [Refseq], Some ''9606''),
      (UniprotKnowledgebaseParser, [Uniprot], Some ''9606''),
      (GeneOntologyAssociationParser, [GeneOntology], Some ''9606''),
      (GtexMetadataParser, [Gtex], None),
      (GtexDataParser, [Gtex], None),
      (ReactomePathwayParser, [Reactome, NcbiTaxonomy], None),
      (ReactomeMappingParser, [Reactome, NcbiTaxonomy], Some ''9606'')]"

definition new_parser :: "world \<Rightarrow> parser_class \<Rightarrow> string \<Rightarrow> nat action" where
  "new_parser w cls root =
     bind (extern w (New_Parser cls root)) (\<lambda>_ s.
       (Inr (length (heap s)),
        s\<lparr>heap := heap s @
            [\<lparr>parser_class = cls, root_dir = root, datasource_instances = [],
              taxid = None, container = \<lparr>nodesets = [], relationshipsets = []\<rparr>\<rparr>]\<rparr>))"

definition append_instance :: "world \<Rightarrow> nat \<Rightarrow> datasource \<Rightarrow> unit action" where
  "append_instance w p ds =
     bind (extern w (Latest_Local_Instance ds)) (\<lambda>inst s.
       (Inr (),
        s\<lparr>heap := (heap s)[p := (heap s ! p)
             \<lparr>datasource_instances := datasource_instances (heap s ! p) @ [inst]\<rparr>]\<rparr>))"

definition set_taxid :: "nat \<Rightarrow> string option \<Rightarrow> unit action" where
  "set_taxid p t s =
     (case t of
        None \<Rightarrow> (Inr (), s)
      | Some x \<Rightarrow> (Inr (), s\<lparr>heap := (heap s)[p := (heap s ! p)\<lparr>taxid := Some x\<rparr>]\<rparr>))"

definition parser_block ::
  "world \<Rightarrow> string \<Rightarrow> parser_class \<times> datasource list \<times> string option \<Rightarrow> nat action" where
  "parser_block w root b =
     (case b of (cls, sources, t) \<Rightarrow>
        bind (new_parser w cls root) (\<lambda>p.
        bind (for_each (append_instance w p) sources) (\<lambda>_.
        bind (set_taxid p t) (\<lambda>_.
          run_parser w p))))"

text \<open>The blocks in order, each result appended to \<^verbatim>\<open>parsers_done\<close>.\<close>

fun run_parsers ::
  "world \<Rightarrow> string \<Rightarrow> (parser_class \<times> datasource list \<times> string option) list \<Rightarrow> nat list \<Rightarrow>
   nat list action" where
  "run_parsers w root [] parsers_done = return parsers_done"
| "run_parsers w root (b # bs) parsers_done =
     bind (parser_block w root b) (\<lambda>p. run_parsers w root bs (parsers_done @ [p]))"

text \<open>Lines 200 to 202.\<close>

definition load_data :: "world \<Rightarrow> graph \<Rightarrow> nat list \<Rightarrow> unit action" where
  "load_data w graph parsers_done =
     bind (create_index w graph parsers_done) (\<lambda>_.
     bind (create_nodesets w graph parsers_done) (\<lambda>_.
       create_relationshipsets w graph parsers_done))"

definition main_else :: "world \<Rightarrow> string \<Rightarrow> json \<Rightarrow> unit action" where
  "main_else w root cfg =
     bind (connect w cfg) (\<lambda>graph.
     bind (for_each (download_block w root) download_blocks) (\<lambda>_.
     bind (run_parsers w root parser_blocks []) (\<lambda>parsers_done.
       load_data w graph parsers_done)))"

definition initial :: state where
  "initial = \<lparr>trace = [], heap = []\<rparr>"

text \<open>
  The whole script: the module-level statements, then the main block. An exception
  while the configuration is decoded ends the script before the run mode is looked at.
\<close>

definition main :: "world \<Rightarrow> env \<Rightarrow> (exn + unit) \<times> state" where
  "main w e =
     (let root = getenv (ROOT_DIR e) ''/download'';
          run_mode = getenv (RUN_MODE e) ''prod''
      in case neo4j_config_dict (json_loads w) (NEO4J e) of
           Inl x \<Rightarrow> (Inl x, initial)
         | Inr cfg \<Rightarrow>
             if lower run_mode = ''test'' then (Inr (), initial)
             else main_else w root cfg initial)"

section \<open>Observing a run\<close>

text \<open>The events an action adds to the trace when started in state \<open>s\<close>.\<close>

definition emitted :: "'a action \<Rightarrow> state \<Rightarrow> event list" where
  "emitted m s = drop (length (trace s)) (trace (snd (m s)))"

text \<open>
  \<open>emits m Q\<close>: from every state, \<open>m\<close> only appends to the trace, and the appended events
  together with the outcome satisfy \<open>Q\<close>.
\<close>

definition emits :: "'a action \<Rightarrow> (event list \<Rightarrow> exn + 'a \<Rightarrow> bool) \<Rightarrow> bool" where
  "emits m Q \<longleftrightarrow> (\<forall>s. \<exists>evs. trace (snd (m s)) = trace s @ evs \<and> Q evs (fst (m s)))"

definition emits_only :: "'a action \<Rightarrow> (event list \<Rightarrow> bool) \<Rightarrow> bool" where
  "emits_only m P = emits m (\<lambda>evs r. P evs)"

definition calls_all :: "(call \<Rightarrow> bool) \<Rightarrow> event list \<Rightarrow> bool" where
  "calls_all P evs = list_all (\<lambda>ev. P (fst ev)) evs"

subsection \<open>Kinds of calls\<close>

fun is_new_graph :: "call \<Rightarrow> bool" where
  "is_new_graph (New_Graph h u p s v) = True"
| "is_new_graph c = False"

fun is_create_index :: "call \<Rightarrow> bool" where
  "is_create_index (RelationshipSet_Create_Index r g) = True"
| "is_create_index (NodeSet_Create_Index n g) = True"
| "is_create_index c = False"

fun is_nodeset_merge :: "call \<Rightarrow> bool" where
  "is_nodeset_merge (NodeSet_Merge n g) = True"
| "is_nodeset_merge c = False"

fun is_relationshipset_merge :: "call \<Rightarrow> bool" where
  "is_relationshipset_merge (RelationshipSet_Merge r g) = True"
| "is_relationshipset_merge c = False"

definition is_merge :: "call \<Rightarrow> bool" where
  "is_merge c = (is_nodeset_merge c \<or> is_relationshipset_merge c)"

text \<open>The calls of a download block on its adapter.\<close>

fun on_datasource :: "datasource \<Rightarrow> call \<Rightarrow> bool" where
  "on_datasource ds (New_Datasource d root) = (d = ds)"
| "on_datasource ds (Latest_Local_Instance d) = (d = ds)"
| "on_datasource ds (Latest_Remote_Version d) = (d = ds)"
| "on_datasource ds (Download d v t) = (d = ds)"
| "on_datasource ds c = False"

text \<open>The calls of the parser blocks.\<close>

fun is_parser_call :: "call \<Rightarrow> bool" where
  "is_parser_call (New_Parser cls root) = True"
| "is_parser_call (Latest_Local_Instance d) = True"
| "is_parser_call (Run_With_Mounted_Arguments p) = True"
| "is_parser_call c = False"

text \<open>
  The position of a call in the loading order: everything before loading, index
  creation, node merge, relationship merge.
\<close>

definition stage :: "call \<Rightarrow> nat" where
  "stage c =
     (if is_create_index c then 1
      else if is_nodeset_merge c then 2
      else if is_relationshipset_merge c then 3
      else 0)"

text \<open>\<open>never_after A B tr\<close>: in \<open>tr\<close>, no call of kind \<open>A\<close> comes after a call of kind \<open>B\<close>.\<close>

fun never_after :: "(call \<Rightarrow> bool) \<Rightarrow> (call \<Rightarrow> bool) \<Rightarrow> event list \<Rightarrow> bool" where
  "never_after A B [] = True"
| "never_after A B (ev # evs) =
     ((if B (fst ev) then list_all (\<lambda>x. \<not> A (fst x)) evs else True) \<and> never_after A B evs)"

text \<open>
  \<open>fail_fast evs r\<close>: every call but the last returned; the last one raised exactly when
  the outcome \<open>r\<close> is an exception, and then \<open>r\<close> is that exception.
\<close>

fun fail_fast :: "event list \<Rightarrow> exn + 'a \<Rightarrow> bool" where
  "fail_fast [] r = (\<not> isl r)"
| "fail_fast ((c, Raises e) # evs) r = (evs = [] \<and> r = Inl e)"
| "fail_fast ((c, Returns v) # evs) r = fail_fast evs r"

definition fails_fast :: "'a action \<Rightarrow> bool" where
  "fails_fast m \<longleftrightarrow>
     (\<forall>s. trace (snd (m s)) = trace s @ emitted m s \<and> fail_fast (emitted m s) (fst (m s)))"

subsection \<open>Order of the loading calls\<close>

text \<open>\<open>ordered_from k evs\<close>: the stages of \<open>evs\<close> never decrease and start at \<open>k\<close> or later.\<close>

definition ordered_from :: "nat \<Rightarrow> event list \<Rightarrow> bool" where
  "ordered_from k evs \<longleftrightarrow>
     sorted (map (\<lambda>ev. stage (fst ev)) evs) \<and> list_all (\<lambda>ev. k \<le> stage (fst ev)) evs"

subsection \<open>Downloads in a trace\<close>

text \<open>
  \<open>downloads ds tr\<close>: the \<^verbatim>\<open>download\<close> calls on adapter \<open>ds\<close>. \<open>first_check ds tr\<close>: what
  the first \<^verbatim>\<open>latest_local_instance()\<close> call on \<open>ds\<close> did, which in a run is the test of
  the download block. \<open>version_lookup_raised ds tr\<close>: a \<^verbatim>\<open>latest_remote_version()\<close> call
  on \<open>ds\<close> raised.

  \<open>downloads_ok versioned prev tr\<close>: every \<^verbatim>\<open>download\<close> call on an adapter in \<open>versioned\<close>
  passes the value that the call just before it, \<^verbatim>\<open>latest_remote_version()\<close> on the same
  adapter, returned; every other \<^verbatim>\<open>download\<close> call passes no version. \<open>prev\<close> is the event
  before \<open>tr\<close>.
\<close>

fun is_download :: "datasource \<Rightarrow> call \<Rightarrow> bool" where
  "is_download ds (Download d v t) = (d = ds)"
| "is_download ds c = False"

definition downloads :: "datasource \<Rightarrow> event list \<Rightarrow> event list" where
  "downloads ds tr = filter (\<lambda>ev. is_download ds (fst ev)) tr"

definition first_check :: "datasource \<Rightarrow> event list \<Rightarrow> reply option" where
  "first_check ds tr =
     (case filter (\<lambda>ev. fst ev = Latest_Local_Instance ds) tr of
        [] \<Rightarrow> None
      | ev # evs \<Rightarrow> Some (snd ev))"

fun returned_falsy :: "reply option \<Rightarrow> bool" where
  "returned_falsy (Some (Returns v)) = (\<not> truthy v)"
| "returned_falsy r = False"

fun raised :: "reply \<Rightarrow> bool" where
  "raised (Raises x) = True"
| "raised (Returns v) = False"

definition version_lookup_raised :: "datasource \<Rightarrow> event list \<Rightarrow> bool" where
  "version_lookup_raised ds tr =
     list_ex (\<lambda>ev. fst ev = Latest_Remote_Version ds \<and> raised (snd ev)) tr"

definition download_rule :: "datasource \<Rightarrow> event list \<Rightarrow> bool" where
  "download_rule ds tr \<longleftrightarrow>
     length (downloads ds tr) \<le> 1 \<and>
     (downloads ds tr \<noteq> [] \<longleftrightarrow>
        returned_falsy (first_check ds tr) \<and> \<not> version_lookup_raised ds tr)"



definition quiet :: "datasource \<Rightarrow> call \<Rightarrow> bool" where
  "quiet ds c \<longleftrightarrow>
     \<not> is_download ds c \<and> c \<noteq> Latest_Local_Instance ds \<and> c \<noteq> Latest_Remote_Version ds"

definition no_download :: "datasource \<Rightarrow> call \<Rightarrow> bool" where
  "no_download ds c \<longleftrightarrow> \<not> is_download ds c \<and> c \<noteq> Latest_Remote_Version ds"

text \<open>The adapters whose block passes \<^verbatim>\<open>latest_remote_version()\<close> to \<^verbatim>\<open>download\<close>.\<close>

definition versioned :: "datasource \<Rightarrow> bool" where
  "versioned ds \<longleftrightarrow> ds = Ensembl \<or> ds = Refseq"

subsection \<open>The calls the loading phase has to make\<close>

text \<open>
  The calls that lines 200 to 202 are to make for the parsers \<open>ps\<close> on the graph \<open>g\<close>,
  read off the containers in the heap \<open>h\<close>: for each parser in turn the index requests
  of its RelationshipSets and then of its NodeSets; after all of these, for each parser
  in turn the merges of its NodeSets; after all of these, for each parser in turn the
  merges of its RelationshipSets.
\<close>

definition index_plan :: "graph \<Rightarrow> nat list \<Rightarrow> parser list \<Rightarrow> call list" where
  "index_plan g ps h =
     concat (map (\<lambda>p.
       map (\<lambda>r. RelationshipSet_Create_Index r g) (relationshipsets (container (h ! p))) @
       map (\<lambda>n. NodeSet_Create_Index n g) (nodesets (container (h ! p)))) ps)"

definition node_plan :: "graph \<Rightarrow> nat list \<Rightarrow> parser list \<Rightarrow> call list" where
  "node_plan g ps h =
     concat (map (\<lambda>p. map (\<lambda>n. NodeSet_Merge n g) (nodesets (container (h ! p)))) ps)"

definition relationship_plan :: "graph \<Rightarrow> nat list \<Rightarrow> parser list \<Rightarrow> call list" where
  "relationship_plan g ps h =
     concat (map (\<lambda>p. map (\<lambda>r. RelationshipSet_Merge r g)
       (relationshipsets (container (h ! p)))) ps)"

definition load_plan :: "graph \<Rightarrow> nat list \<Rightarrow> parser list \<Rightarrow> call list" where
  "load_plan g ps h = index_plan g ps h @ node_plan g ps h @ relationship_plan g ps h"

text \<open>A list of calls made one after the other, stopping at the first that raises.\<close>

definition run_calls :: "world \<Rightarrow> call list \<Rightarrow> unit action" where
  "run_calls w cs = for_each (\<lambda>c. bind (extern w c) (\<lambda>_. return ())) cs"

text \<open>
  \<open>follows plan evs r\<close>: the calls of \<open>evs\<close> are the calls of \<open>plan\<close>, in order, up to
  the point the run got to; every call but the last returned; and when the outcome \<open>r\<close>
  is normal the whole plan was carried out.
\<close>

definition follows :: "call list \<Rightarrow> event list \<Rightarrow> exn + 'a \<Rightarrow> bool" where
  "follows plan evs r \<longleftrightarrow>
     map fst evs = take (length evs) plan \<and> fail_fast evs r \<and>
     (if isl r then True else map fst evs = plan)"

text \<open>The graph a merge call is issued against.\<close>

fun merged_into :: "call \<Rightarrow> graph option" where
  "merged_into (NodeSet_Merge n g) = Some g"
| "merged_into (RelationshipSet_Merge r g) = Some g"
| "merged_into c = None"

text \<open>
  \<open>all_before A plan B evs\<close>: whenever a call of kind \<open>B\<close> is made, the calls of kind
  \<open>A\<close> made before it are exactly the calls \<open>plan g\<close>, \<open>g\<close> being the graph of that
  \<open>B\<close> call, and each of them has returned.
\<close>

definition all_before ::
  "(call \<Rightarrow> bool) \<Rightarrow> (graph \<Rightarrow> call list) \<Rightarrow> (call \<Rightarrow> bool) \<Rightarrow> event list \<Rightarrow> bool" where
  "all_before A plan B evs \<longleftrightarrow>
     (\<forall>i < length evs. B (fst (evs ! i)) \<longrightarrow>
        (case merged_into (fst (evs ! i)) of
           None \<Rightarrow> False
         | Some g \<Rightarrow>
             map fst (filter (\<lambda>ev. A (fst ev)) (take i evs)) = plan g \<and>
             list_all (\<lambda>ev. \<not> raised (snd ev)) (filter (\<lambda>ev. A (fst ev)) (take i evs))))"

subsection \<open>Example runs\<close>

definition example_config :: json where
  "example_config =
     JDict [(''host'', JStr ''db''), (''user'', JStr ''neo4j''), (''password'', JStr ''pw''),
            (''secure'', JBool False)]"

definition example_string :: string where
  "example_string = ''{'host': 'db', 'user': 'neo4j', 'password': 'pw', 'secure': false}''"

definition example_loads :: "string \<Rightarrow> exn + json" where
  "example_loads s =
     (if s = replace_quotes example_string then Inr example_config
      else Inl (JSONDecodeError ''Expecting property name enclosed in double quotes''))"

fun example_respond :: "event list \<Rightarrow> call \<Rightarrow> reply" where
  "example_respond t (Latest_Local_Instance ds) =
     (if ds = NcbiGene \<or> downloads ds t \<noteq> [] then Returns (PyObj ''instance'')
      else Returns PyNone)"
| "example_respond t (Latest_Remote_Version ds) = Returns (PyStr ''v1'')"
| "example_respond t c = Returns PyNone"

definition example_parse :: "event list \<Rightarrow> parser \<Rightarrow> container" where
  "example_parse t p =
     (if parser_class p = NcbiGeneParser
      then \<lparr>nodesets = [NodeSetRef ''Gene''], relationshipsets = []\<rparr>
      else if parser_class p = EnsemblEntityParser
      then \<lparr>nodesets = [NodeSetRef ''EnsemblGene'', NodeSetRef ''Transcript''],
            relationshipsets = [RelationshipSetRef ''CODES'']\<rparr>
      else if parser_class p = EnsemblMappingParser
      then \<lparr>nodesets = [], relationshipsets = [RelationshipSetRef ''MAPS'']\<rparr>
      else \<lparr>nodesets = [], relationshipsets = []\<rparr>)"

definition example_world :: world where
  "example_world =
     \<lparr>respond = example_respond, parse_result = example_parse, json_loads = example_loads\<rparr>"

definition example_env :: env where
  "example_env = \<lparr>ROOT_DIR = None, RUN_MODE = None, NEO4J = Some example_string\<rparr>"

definition remote_down_world :: world where
  "remote_down_world =
     example_world\<lparr>respond := (\<lambda>t c.
        if c = Latest_Remote_Version Ensembl then Raises (OtherError ''connection refused'')
        else example_respond t c)\<rparr>"

text \<open>
  The run of \<open>example_world\<close>: only NCBI Gene has a local instance at the start, every
  call returns, and three parsers produce NodeSets and RelationshipSets. In
  \<open>remote_down_world\<close> the version lookup of Ensembl raises.
\<close>

definition example_graph :: graph where
  "example_graph = Graph (JStr ''db'') (JStr ''neo4j'') (JStr ''pw'') (JBool False) False"

definition example_trace :: "event list" where
  "example_trace =
 [(New_Graph (JStr ''db'') (JStr ''neo4j'') (JStr ''pw'') (JBool False) False, Returns PyNone),
  (New_Datasource NcbiGene ''/download'', Returns PyNone),
  (Latest_Local_Instance NcbiGene, Returns (PyObj ''instance'')),
  (New_Datasource BigWordList ''/download'', Returns PyNone),
  (Latest_Local_Instance BigWordList, Returns PyNone),
  (Download BigWordList None None, Returns PyNone),
  (New_Datasource Ensembl ''/download'', Returns PyNone),
  (Latest_Local_Instance Ensembl, Returns PyNone),
  (Latest_Remote_Version Ensembl, Returns (PyStr ''v1'')),
  (Download Ensembl (Some (PyStr ''v1'')) (Some [''9606'']), Returns PyNone),
  (New_Datasource Refseq ''/download'', Returns PyNone),
  (Latest_Local_Instance Refseq, Returns PyNone),
  (Latest_Remote_Version Refseq, Returns (PyStr ''v1'')),
  (Download Refseq (Some (PyStr ''v1'')) None, Returns PyNone),
  (New_Datasource Uniprot ''/download'', Returns PyNone),
  (Latest_Local_Instance Uniprot, Returns PyNone),
  (Download Uniprot None None, Returns PyNone),
  (New_Datasource Gtex ''/download'', Returns PyNone),
  (Latest_Local_Instance Gtex, Returns PyNone),
  (Download Gtex None None, Returns PyNone),
  (New_Datasource Reactome ''/download'', Returns PyNone),
  (Latest_Local_Instance Reactome, Returns PyNone),
  (Download Reactome None None, Returns PyNone),
  (New_Datasource NcbiTaxonomy ''/download'', Returns PyNone),
  (Latest_Local_Instance NcbiTaxonomy, Returns PyNone),
  (Download NcbiTaxonomy None None, Returns PyNone),
  (New_Datasource GeneOntology ''/download'', Returns PyNone),
  (Latest_Local_Instance GeneOntology, Returns PyNone),
  (Download GeneOntology None (Some [''9606'']), Returns PyNone),
  (New_Parser NcbiGeneParser ''/download'', Returns PyNone),
  (Latest_Local_Instance NcbiGene, Returns (PyObj ''instance'')),
  (Run_With_Mounted_Arguments 0, Returns PyNone),
  (New_Parser BigWordListParser ''/download'', Returns PyNone),
  (Latest_Local_Instance BigWordList, Returns (PyObj ''instance'')),
  (Run_With_Mounted_Arguments 1, Returns PyNone),
  (New_Parser EnsemblEntityParser ''/download'', Returns PyNone),
  (Latest_Local_Instance Ensembl, Returns (PyObj ''instance'')),
  (Run_With_Mounted_Arguments 2, Returns PyNone),
  (New_Parser EnsemblMappingParser ''/download'', Returns PyNone),
  (Latest_Local_Instance Ensembl, Returns (PyObj ''instance'')),
  (Run_With_Mounted_Arguments 3, Returns PyNone),
  (New_Parser RefseqEntityParser ''/download'', Returns PyNone),
  (Latest_Local_Instance Refseq, Returns (PyObj ''instance'')),
  (Run_With_Mounted_Arguments 4, Returns PyNone),
  (New_Parser RefseqCodesParser ''/download'', Returns PyNone),
  (Latest_Local_Instance Refseq, Returns (PyObj ''instance'')),
  (Run_With_Mounted_Arguments 5, Returns PyNone),
  (New_Parser UniprotKnowledgebaseParser ''/download'', Returns PyNone),
  (Latest_Local_Instance Uniprot, Returns (PyObj ''instance'')),
  (Run_With_Mounted_Arguments 6, Returns PyNone),
  (New_Parser GeneOntologyAssociationParser ''/download'', Returns PyNone),
  (Latest_Local_Instance GeneOntology, Returns (PyObj ''instance'')),
  (Run_With_Mounted_Arguments 7, Returns PyNone),
  (New_Parser GtexMetadataParser ''/download'', Returns PyNone),
  (Latest_Local_Instance Gtex, Returns (PyObj ''instance'')),
  (Run_With_Mounted_Arguments 8, Returns PyNone),
  (New_Parser GtexDataParser ''/download'', Returns PyNone),
  (Latest_Local_Instance Gtex, Returns (PyObj ''instance'')),
  (Run_With_Mounted_Arguments 9, Returns PyNone),
  (New_Parser ReactomePathwayParser ''/download'', Returns PyNone),
  (Latest_Local_Instance Reactome, Returns (PyObj ''instance'')),
  (Latest_Local_Instance NcbiTaxonomy, Returns (PyObj ''instance'')),
  (Run_With_Mounted_Arguments 10, Returns PyNone),
  (New_Parser ReactomeMappingParser ''/download'', Returns PyNone),
  (Latest_Local_Instance Reactome, Returns (PyObj ''instance'')),
  (Latest_Local_Instance NcbiTaxonomy, Returns (PyObj ''instance'')),
  (Run_With_Mounted_Arguments 11, Returns PyNone),
  (NodeSet_Create_Index (NodeSetRef ''Gene'') example_graph, Returns PyNone),
  (RelationshipSet_Create_Index (RelationshipSetRef ''CODES'') example_graph, Returns PyNone),
  (NodeSet_Create_Index (NodeSetRef ''EnsemblGene'') example_graph, Returns PyNone),
  (NodeSet_Create_Index (NodeSetRef ''Transcript'') example_graph, Returns PyNone),
  (RelationshipSet_Create_Index (RelationshipSetRef ''MAPS'') example_graph, Returns PyNone),
  (NodeSet_Merge (NodeSetRef ''Gene'') example_graph, Returns PyNone),
  (NodeSet_Merge (NodeSetRef ''EnsemblGene'') example_graph, Returns PyNone),
  (NodeSet_Merge (NodeSetRef ''Transcript'') example_graph, Returns PyNone),
  (RelationshipSet_Merge (RelationshipSetRef ''CODES'') example_graph, Returns PyNone),
  (RelationshipSet_Merge (RelationshipSetRef ''MAPS'') example_graph, Returns PyNone)]"

definition remote_down_trace :: "event list" where
  "remote_down_trace =
     [(New_Graph (JStr ''db'') (JStr ''neo4j'') (JStr ''pw'') (JBool False) False, Returns PyNone),
      (New_Datasource NcbiGene ''/download'', Returns PyNone),
      (Latest_Local_Instance NcbiGene, Returns (PyObj ''instance'')),
      (New_Datasource BigWordList ''/download'', Returns PyNone),
      (Latest_Local_Instance BigWordList, Returns PyNone),
      (Download BigWordList None None, Returns PyNone),
      (New_Datasource Ensembl ''/download'', Returns PyNone),
      (Latest_Local_Instance Ensembl, Returns PyNone),
      (Latest_Remote_Version Ensembl, Raises (OtherError ''connection refused''))]"

text \<open>States and a world for single functions: a parser holding two NodeSets and a
  RelationshipSet, a store that refuses the first node merge, a parser not yet run.\<close>

definition two_nodesets :: state where
  "two_nodesets =
     \<lparr>trace = [],
      heap = [\<lparr>parser_class = NcbiGeneParser, root_dir = ''/download'',
               datasource_instances = [PyObj ''instance''], taxid = Some ''9606'',
               container = \<lparr>nodesets = [NodeSetRef ''Gene'', NodeSetRef ''Transcript''],
                            relationshipsets = [RelationshipSetRef ''CODES'']\<rparr>\<rparr>]\<rparr>"

definition store_down_world :: world where
  "store_down_world =
     example_world\<lparr>respond := (\<lambda>t c.
        if c = NodeSet_Merge (NodeSetRef ''Gene'') example_graph
        then Raises (OtherError ''store unavailable'')
        else Returns PyNone)\<rparr>"

definition unparsed :: state where
  "unparsed =
     \<lparr>trace = [],
      heap = [\<lparr>parser_class = EnsemblEntityParser, root_dir = ''/download'',
               datasource_instances = [PyObj ''instance''], taxid = Some ''9606'',
               container = \<lparr>nodesets = [], relationshipsets = []\<rparr>\<rparr>]\<rparr>"

subsection \<open>\<^verbatim>\<open>json.loads\<close> on some strings\<close>

text \<open>
  Strings on which \<^verbatim>\<open>json.loads\<close> of CPython does not raise JSONDecodeError.
  \<open>long_number\<close> is \<^verbatim>\<open>["',", 11...1, ",'"]\<close> with 5000 digits: the integer literal is
  longer than the 4300 digits the interpreter converts, and \<^verbatim>\<open>json.loads\<close> raises a
  plain ValueError. \<open>deep_list\<close> has 100000 nested brackets in the place of the number,
  and \<^verbatim>\<open>json.loads\<close> raises RecursionError. With every \<^verbatim>\<open>'\<close> replaced by \<^verbatim>\<open>"\<close>
  the number, or the brackets, sit inside a string literal, and both strings decode to
  a list of three strings. \<open>quoted_number\<close> is \<^verbatim>\<open>['a', 11...1]\<close>: a JSONDecodeError
  as it is, a ValueError once the quotes are replaced.
\<close>

definition long_number :: string where
  "long_number =
     [CHR ''['', CHR 0x22, CHR 0x27, CHR '','', CHR 0x22, CHR '','', CHR '' ''] @
     replicate 5000 CHR ''1'' @
     [CHR '','', CHR '' '', CHR 0x22, CHR '','', CHR 0x27, CHR 0x22, CHR '']'']"

definition long_number_replaced :: string where
  "long_number_replaced =
     [CHR ''['', CHR 0x22, CHR 0x22, CHR '','', CHR 0x22, CHR '','', CHR '' ''] @
     replicate 5000 CHR ''1'' @
     [CHR '','', CHR '' '', CHR 0x22, CHR '','', CHR 0x22, CHR 0x22, CHR '']'']"

definition deep_list :: string where
  "deep_list =
     [CHR ''['', CHR 0x22, CHR 0x27, CHR '','', CHR 0x22, CHR '','', CHR '' ''] @
     replicate 100000 CHR ''['' @ replicate 100000 CHR '']'' @
     [CHR '','', CHR '' '', CHR 0x22, CHR '','', CHR 0x27, CHR 0x22, CHR '']'']"

definition deep_list_replaced :: string where
  "deep_list_replaced =
     [CHR ''['', CHR 0x22, CHR 0x22, CHR '','', CHR 0x22, CHR '','', CHR '' ''] @
     replicate 100000 CHR ''['' @ replicate 100000 CHR '']'' @
     [CHR '','', CHR '' '', CHR 0x22, CHR '','', CHR 0x22, CHR 0x22, CHR '']'']"

definition quoted_number :: string where
  "quoted_number = ''['a', '' @ replicate 5000 CHR ''1'' @ '']''"

definition quoted_number_replaced :: string where
  "quoted_number_replaced =
     [CHR ''['', CHR 0x22, CHR ''a'', CHR 0x22, CHR '','', CHR '' ''] @
     replicate 5000 CHR ''1'' @ '']''"

text \<open>
  \<^verbatim>\<open>json.loads\<close> on these strings, on \<^verbatim>\<open>["a"]\<close> and on strings that are no JSON at
  all; every string not listed is taken to be of the last kind.
\<close>

definition stdlib_loads :: "string \<Rightarrow> exn + json" where
  "stdlib_loads s =
     (if s = long_number \<or> s = quoted_number_replaced then
        Inl (ValueError ''Exceeds the limit (4300 digits) for integer string conversion'')
      else if s = long_number_replaced then
        Inr (JList [JStr [], JStr ('', '' @ replicate 5000 CHR ''1'' @ '', ''), JStr []])
      else if s = deep_list then
        Inl (RecursionError ''maximum recursion depth exceeded while decoding a JSON array'')
      else if s = deep_list_replaced then
        Inr (JList [JStr [],
               JStr ('', '' @ replicate 100000 CHR ''['' @ replicate 100000 CHR '']'' @ '', ''),
               JStr []])
      else if s = [CHR ''['', CHR 0x22, CHR ''a'', CHR 0x22, CHR '']''] then
        Inr (JList [JStr ''a''])
      else Inl (JSONDecodeError ''Expecting value''))"

section \<open>NodeSets, RelationshipSets and the store\<close>

text \<open>
  \<^verbatim>\<open>run.py\<close> only calls \<^verbatim>\<open>merge\<close> and \<^verbatim>\<open>create_index\<close> on NodeSets and RelationshipSets;
  their code, and the store, are not part of the repository's source. This section
  models them from the specification (sections 3, 4 and 6).
\<close>

subsection \<open>Records\<close>

text \<open>
  Modelled from the spec: the value of a Record field, "string, number, boolean, or
  null" (section 3); the Record type is missing from the source. Numbers are integers
  here.
\<close>

datatype scalar = Null | Str string | Num int | Bool bool

text \<open>
  Modelled from the spec: the Record, missing from the source: a "mapping of field name
  to value" in which an absent field is null (section 3: "absent = null").
\<close>

type_synonym fields = "string \<Rightarrow> scalar"

text \<open>
  Modelled from the spec: a Record written as a literal, such as the
  \<^verbatim>\<open>{id:1,name:"a"}\<close> of section 8; every field not listed is null.
\<close>

definition fields_of :: "(string \<times> scalar) list \<Rightarrow> fields" where
  "fields_of kvs f = (case map_of kvs f of None \<Rightarrow> Null | Some v \<Rightarrow> v)"

text \<open>
  Modelled from the spec: the merge-key values of a Record, that is its values under the
  declared merge-key fields (section 3); missing from the source.
\<close>

definition key_values :: "string list \<Rightarrow> fields \<Rightarrow> scalar list" where
  "key_values ks r = map r ks"

subsection \<open>Deduplication\<close>

text \<open>
  Modelled from the spec: the combination policy of \<^verbatim>\<open>deduplicate()\<close>, missing from the
  source; section 4.1: "later record's non-null values overwrite earlier ones; null never
  overwrites a non-null value".
\<close>

definition combine :: "fields \<Rightarrow> fields \<Rightarrow> fields" where
  "combine earlier later f = (if later f = Null then earlier f else later f)"

text \<open>
  Modelled from the spec: one step of \<^verbatim>\<open>deduplicate()\<close>, missing from the source: a
  record is combined into the earlier record that has the same identity, or placed
  after the records collapsed so far (section 4.1: "collapses Records sharing identical
  merge-key values into one"). \<open>key\<close> gives the identity of a record, \<open>comb\<close> combines an
  earlier record with a later one.
\<close>

fun collapse :: "('a \<Rightarrow> 'k) \<Rightarrow> ('a \<Rightarrow> 'a \<Rightarrow> 'a) \<Rightarrow> 'a \<Rightarrow> 'a list \<Rightarrow> 'a list" where
  "collapse key comb r [] = [r]"
| "collapse key comb r (x # xs) =
     (if key x = key r then comb x r # xs else x # collapse key comb r xs)"

text \<open>
  Modelled from the spec: the scan of \<^verbatim>\<open>deduplicate()\<close>, missing from the source; section
  4.1: "last-seen-wins per field, scanned in insertion order".
\<close>

definition dedup :: "('a \<Rightarrow> 'k) \<Rightarrow> ('a \<Rightarrow> 'a \<Rightarrow> 'a) \<Rightarrow> 'a list \<Rightarrow> 'a list" where
  "dedup key comb rs = fold (collapse key comb) rs []"

text \<open>
  Modelled from the spec: \<^verbatim>\<open>NodeSet.deduplicate()\<close>, missing from the source, on the
  records of a NodeSet with merge keys \<open>ks\<close> (section 4.1).
\<close>

definition deduplicate :: "string list \<Rightarrow> fields list \<Rightarrow> fields list" where
  "deduplicate ks rs = dedup (key_values ks) combine rs"

text \<open>
  Modelled from the spec: what the policy of \<^verbatim>\<open>deduplicate()\<close>, missing from the source,
  leaves in field \<open>f\<close> for the records \<open>rs\<close> of one identity, in insertion order; section
  4.1: "later record's non-null values overwrite earlier ones; null never overwrites a
  non-null value": the value of the last record whose \<open>f\<close> is not null, and null when
  there is none.
\<close>

fun latest :: "string \<Rightarrow> fields list \<Rightarrow> scalar" where
  "latest f [] = Null"
| "latest f (r # rs) = (if latest f rs = Null then r f else latest f rs)"

subsection \<open>NodeSet, RelationshipSet, Container\<close>








subsection \<open>The store\<close>

text \<open>
  Modelled from the spec: a node of the graph store, an external collaborator missing
  from the source: a label and properties (sections 4.1 and 6).
\<close>

record node =
  node_label :: string
  node_props :: fields

text \<open>
  Modelled from the spec: an edge of the graph store, missing from the source: a
  relationship type, a start and an end node (by position in the store) and properties
  (sections 4.2 and 6).
\<close>

record edge =
  edge_type :: string
  edge_start :: nat
  edge_end :: nat
  edge_props :: fields

text \<open>
  Modelled from the spec: the state of the graph store, missing from the source: its
  nodes and edges. Merging never removes a node or an edge.
\<close>

record store =
  store_nodes :: "node list"
  store_edges :: "edge list"



subsection \<open>Upserts and merges\<close>

text \<open>
  Modelled from the spec: looking for a match in the store, missing from the source; the
  position of the first element that matches. The spec speaks of "the" matched node;
  where several match, the first is taken.
\<close>

fun first_index :: "('a \<Rightarrow> bool) \<Rightarrow> 'a list \<Rightarrow> nat option" where
  "first_index P [] = None"
| "first_index P (x # xs) = (if P x then Some 0 else map_option Suc (first_index P xs))"












subsection \<open>Example containers\<close>





subsection \<open>Merges as sequences of upserts\<close>
















section \<open>Proofs\<close>

subsection \<open>Rules for traces\<close>

lemma emitsD:
  assumes "emits m Q"
  shows "trace (snd (m s)) = trace s @ emitted m s \<and> Q (emitted m s) (fst (m s))"
proof -
  from assms obtain evs where "trace (snd (m s)) = trace s @ evs" "Q evs (fst (m s))"
    unfolding emits_def by blast
  then show ?thesis by (simp add: emitted_def)
qed

lemma emits_weaken:
  "emits m Q \<Longrightarrow> (\<And>a r. Q a r \<Longrightarrow> Q' a r) \<Longrightarrow> emits m Q'"
  unfolding emits_def by blast

lemma emits_return: "Q [] (Inr x) \<Longrightarrow> emits (return x) Q"
  by (simp add: emits_def return_def)

lemma emits_get_container: "(\<And>c. Q [] (Inr c)) \<Longrightarrow> emits (get_container p) Q"
  by (simp add: emits_def get_container_def)

lemma emits_extern:
  assumes "\<And>v. Q [(c, Returns v)] (Inr v)" and "\<And>e. Q [(c, Raises e)] (Inl e)"
  shows "emits (extern w c) Q"
  using assms by (auto simp: emits_def extern_def Let_def split: reply.splits)

lemma emits_bind:
  assumes m: "emits m Q1"
    and f: "\<And>x. emits (f x) (Q2 x)"
    and l: "\<And>a e. Q1 a (Inl e) \<Longrightarrow> Q a (Inl e)"
    and r: "\<And>a x b r. Q1 a (Inr x) \<Longrightarrow> Q2 x b r \<Longrightarrow> Q (a @ b) r"
  shows "emits (bind m f) Q"
  unfolding emits_def
proof
  fix s
  from m obtain a where a: "trace (snd (m s)) = trace s @ a" "Q1 a (fst (m s))"
    unfolding emits_def by blast
  show "\<exists>evs. trace (snd (bind m f s)) = trace s @ evs \<and> Q evs (fst (bind m f s))"
  proof (cases "m s")
    case (Pair res s')
    show ?thesis
    proof (cases res)
      case (Inl e)
      with Pair a l show ?thesis by (auto simp: bind_def)
    next
      case (Inr x)
      from f obtain b where b: "trace (snd (f x s')) = trace s' @ b" "Q2 x b (fst (f x s'))"
        unfolding emits_def by blast
      with Pair Inr a r [of a x b "fst (f x s')"] show ?thesis by (auto simp: bind_def)
    qed
  qed
qed

lemma emits_for_each:
  assumes body: "\<And>x. x \<in> set xs \<Longrightarrow> emits (body x) Q"
    and nil: "Q [] (Inr ())"
    and app: "\<And>a b r. Q a (Inr ()) \<Longrightarrow> Q b r \<Longrightarrow> Q (a @ b) r"
  shows "emits (for_each body xs) Q"
  using body
proof (induction xs)
  case Nil
  then show ?case by (simp add: emits_return nil)
next
  case (Cons x xs)
  have 1: "emits (body x) Q" using Cons.prems by simp
  have 2: "emits (for_each body xs) Q" using Cons by simp
  show ?case
    unfolding for_each.simps
    by (rule emits_bind [where ?Q1.0 = Q and ?Q2.0 = "\<lambda>_. Q", OF 1 2]) (auto intro: app)
qed

lemma emits_only_bind:
  assumes "emits_only m P" and "\<And>x. emits_only (f x) P'"
    and "\<And>a. P a \<Longrightarrow> P'' a" and "\<And>a b. P a \<Longrightarrow> P' b \<Longrightarrow> P'' (a @ b)"
  shows "emits_only (bind m f) P''"
  unfolding emits_only_def
  by (rule emits_bind [where ?Q1.0 = "\<lambda>evs r. P evs" and ?Q2.0 = "\<lambda>x evs r. P' evs"])
     (use assms in \<open>simp_all add: emits_only_def\<close>)

lemma emits_only_weaken:
  "emits_only m P \<Longrightarrow> (\<And>a. P a \<Longrightarrow> P' a) \<Longrightarrow> emits_only m P'"
  unfolding emits_only_def by (erule emits_weaken)

lemma emits_onlyD:
  "emits_only m P \<Longrightarrow> trace (snd (m s)) = trace s @ emitted m s \<and> P (emitted m s)"
  unfolding emits_only_def by (drule emitsD)

subsection \<open>Which calls each function makes\<close>

lemma calls_all_Nil: "calls_all P []"
  by (simp add: calls_all_def)

lemma calls_all_append: "calls_all P (a @ b) = (calls_all P a \<and> calls_all P b)"
  by (simp add: calls_all_def)

lemma calls_all_mono: "calls_all P a \<Longrightarrow> (\<And>c. P c \<Longrightarrow> P' c) \<Longrightarrow> calls_all P' a"
  by (auto simp: calls_all_def list_all_iff)

lemma calls_bind:
  assumes "emits_only m (calls_all P)" and "\<And>x. emits_only (f x) (calls_all P)"
  shows "emits_only (bind m f) (calls_all P)"
  by (rule emits_only_bind [OF assms]) (simp_all add: calls_all_append)

lemma calls_for_each:
  "(\<And>x. emits_only (body x) (calls_all P)) \<Longrightarrow> emits_only (for_each body xs) (calls_all P)"
  unfolding emits_only_def
  by (rule emits_for_each) (simp_all add: calls_all_append calls_all_Nil)

lemma calls_extern: "P c \<Longrightarrow> emits_only (extern w c) (calls_all P)"
  unfolding emits_only_def
  by (rule emits_extern) (simp_all add: calls_all_def)

lemma calls_silent:
  assumes "\<And>s. trace (snd (m s)) = trace s"
  shows "emits_only m (calls_all P)"
  using assms by (simp add: emits_only_def emits_def calls_all_Nil)

lemma calls_return: "emits_only (return x) (calls_all P)"
  by (rule calls_silent) (simp add: return_def)

lemma calls_lift: "emits_only (lift r) (calls_all P)"
  by (rule calls_silent) (simp add: lift_def)

lemma calls_get_container: "emits_only (get_container p) (calls_all P)"
  by (rule calls_silent) (simp add: get_container_def)

lemma calls_if:
  "emits_only m P \<Longrightarrow> emits_only n P \<Longrightarrow> emits_only (if c then m else n) P"
  by simp

lemma calls_mono:
  "emits_only m (calls_all P) \<Longrightarrow> (\<And>c. P c \<Longrightarrow> P' c) \<Longrightarrow> emits_only m (calls_all P')"
  by (erule emits_only_weaken) (erule calls_all_mono)

lemma create_index_calls: "emits_only (create_index w g ps) (calls_all is_create_index)"
  unfolding create_index_def
  by (intro calls_for_each calls_bind calls_extern calls_return calls_get_container) simp_all

lemma create_nodesets_calls: "emits_only (create_nodesets w g ps) (calls_all is_nodeset_merge)"
  unfolding create_nodesets_def
  by (intro calls_for_each calls_bind calls_extern calls_return calls_get_container) simp_all

lemma create_relationshipsets_calls:
  "emits_only (create_relationshipsets w g ps) (calls_all is_relationshipset_merge)"
  unfolding create_relationshipsets_def
  by (intro calls_for_each calls_bind calls_extern calls_return calls_get_container) simp_all

lemma connect_calls: "emits_only (connect w cfg) (calls_all is_new_graph)"
  unfolding connect_def
  by (intro calls_bind calls_extern calls_return calls_lift) simp_all

lemma download_block_calls:
  "emits_only (download_block w root b) (calls_all (on_datasource (fst b)))"
proof (cases b)
  case (fields ds va taxids)
  show ?thesis
    unfolding download_block_def fields prod.case fst_conv
    by (cases va; simp only: version_arg.case;
        intro calls_bind calls_if calls_extern calls_return; simp)
qed

lemma new_parser_calls: "emits_only (new_parser w cls root) (calls_all is_parser_call)"
  unfolding new_parser_def
  by (intro calls_bind calls_extern calls_silent) simp_all

lemma append_instance_calls: "emits_only (append_instance w p ds) (calls_all is_parser_call)"
  unfolding append_instance_def
  by (intro calls_bind calls_extern calls_silent) simp_all

lemma set_taxid_calls: "emits_only (set_taxid p t) (calls_all P)"
  by (rule calls_silent) (simp add: set_taxid_def split: option.splits)

lemma run_with_mounted_arguments_calls:
  "emits_only (run_with_mounted_arguments w p) (calls_all is_parser_call)"
  by (auto simp: emits_only_def emits_def run_with_mounted_arguments_def Let_def calls_all_def
           split: reply.splits)

lemma run_parser_calls: "emits_only (run_parser w p) (calls_all is_parser_call)"
  unfolding run_parser_def
  by (intro calls_bind run_with_mounted_arguments_calls calls_return)

lemma parser_block_calls: "emits_only (parser_block w root b) (calls_all is_parser_call)"
proof (cases b)
  case (fields cls sources t)
  show ?thesis
    unfolding parser_block_def fields prod.case
    by (intro calls_bind calls_for_each new_parser_calls append_instance_calls
          set_taxid_calls run_parser_calls)
qed

lemma run_parsers_calls: "emits_only (run_parsers w root bs ps) (calls_all is_parser_call)"
proof (induction bs arbitrary: ps)
  case Nil
  show ?case by (simp add: calls_return)
next
  case (Cons b bs)
  show ?case
    unfolding run_parsers.simps
    by (intro calls_bind parser_block_calls Cons)
qed

subsection \<open>The example runs, evaluated\<close>

lemmas run_defs =
  main_def main_else_def getenv_def neo4j_config_dict_def replace_quotes_def lower_def
  lower_char_def connect_def bind_def lift_def return_def extern_def initial_def
  download_blocks_def download_block_def parser_blocks_def parser_block_def new_parser_def
  append_instance_def set_taxid_def run_parser_def run_with_mounted_arguments_def
  load_data_def create_index_def create_nodesets_def create_relationshipsets_def
  get_container_def Let_def

lemmas example_defs =
  example_env_def example_world_def example_loads_def example_string_def example_config_def
  example_parse_def downloads_def

lemma example_run: "trace (snd (main example_world example_env)) = example_trace"
  by (simp add: run_defs example_defs example_trace_def example_graph_def)

lemma example_containers:
  "map container (heap (snd (main example_world example_env))) =
     [\<lparr>nodesets = [NodeSetRef ''Gene''], relationshipsets = []\<rparr>,
      \<lparr>nodesets = [], relationshipsets = []\<rparr>,
      \<lparr>nodesets = [NodeSetRef ''EnsemblGene'', NodeSetRef ''Transcript''],
       relationshipsets = [RelationshipSetRef ''CODES'']\<rparr>,
      \<lparr>nodesets = [], relationshipsets = [RelationshipSetRef ''MAPS'']\<rparr>,
      \<lparr>nodesets = [], relationshipsets = []\<rparr>,
      \<lparr>nodesets = [], relationshipsets = []\<rparr>,
      \<lparr>nodesets = [], relationshipsets = []\<rparr>,
      \<lparr>nodesets = [], relationshipsets = []\<rparr>,
      \<lparr>nodesets = [], relationshipsets = []\<rparr>,
      \<lparr>nodesets = [], relationshipsets = []\<rparr>,
      \<lparr>nodesets = [], relationshipsets = []\<rparr>,
      \<lparr>nodesets = [], relationshipsets = []\<rparr>]"
  by (simp add: run_defs example_defs)

lemma remote_down_run:
  "main remote_down_world example_env =
     (Inl (OtherError ''connection refused''), \<lparr>trace = remote_down_trace, heap = []\<rparr>)"
  by (simp add: run_defs example_defs remote_down_world_def remote_down_trace_def)

subsection \<open>The loading order\<close>

lemma in_stage_sorted:
  "calls_all (\<lambda>c. stage c = k) a \<Longrightarrow> sorted (map (\<lambda>ev. stage (fst ev)) a)"
  by (induction a) (auto simp: calls_all_def list_all_iff)

lemma in_stage_ordered: "calls_all (\<lambda>c. stage c = k) a \<Longrightarrow> ordered_from k a"
  by (simp add: ordered_from_def in_stage_sorted) (simp add: calls_all_def list_all_iff)

lemma ordered_append:
  assumes "calls_all (\<lambda>c. stage c = k) a" and "ordered_from k' b" and "k \<le> k'"
  shows "ordered_from k (a @ b)"
proof -
  have "sorted (map (\<lambda>ev. stage (fst ev)) a)" using assms(1) by (rule in_stage_sorted)
  moreover have "stage (fst x) \<le> stage (fst y)" if "x \<in> set a" "y \<in> set b" for x y
    using that assms by (auto simp: calls_all_def ordered_from_def list_all_iff)
  moreover have "k \<le> stage (fst x)" if "x \<in> set a \<or> x \<in> set b" for x
    using that assms by (auto simp: calls_all_def ordered_from_def list_all_iff)
  ultimately show ?thesis
    using assms(2) by (auto simp: ordered_from_def sorted_append list_all_iff)
qed

lemma ordered_bind:
  assumes "emits_only m (calls_all (\<lambda>c. stage c = k))"
    and "\<And>x. emits_only (f x) (ordered_from k')" and "k \<le> k'"
  shows "emits_only (bind m f) (ordered_from k)"
  by (rule emits_only_bind [OF assms(1,2)])
     (auto intro: in_stage_ordered ordered_append [OF _ _ assms(3)])

lemma create_index_stage: "emits_only (create_index w g ps) (calls_all (\<lambda>c. stage c = 1))"
  by (rule calls_mono [OF create_index_calls]) (simp add: stage_def)

lemma create_nodesets_stage: "emits_only (create_nodesets w g ps) (calls_all (\<lambda>c. stage c = 2))"
  by (rule calls_mono [OF create_nodesets_calls], case_tac c) (simp_all add: stage_def)

lemma create_relationshipsets_stage:
  "emits_only (create_relationshipsets w g ps) (calls_all (\<lambda>c. stage c = 3))"
  by (rule calls_mono [OF create_relationshipsets_calls], case_tac c) (simp_all add: stage_def)

lemma connect_stage: "emits_only (connect w cfg) (calls_all (\<lambda>c. stage c = 0))"
  by (rule calls_mono [OF connect_calls], case_tac c) (simp_all add: stage_def)

lemma download_block_stage:
  "emits_only (download_block w root b) (calls_all (\<lambda>c. stage c = 0))"
  by (rule calls_mono [OF download_block_calls], case_tac c) (simp_all add: stage_def)

lemma run_parsers_stage:
  "emits_only (run_parsers w root bs ps) (calls_all (\<lambda>c. stage c = 0))"
  by (rule calls_mono [OF run_parsers_calls], case_tac c) (simp_all add: stage_def)

lemma load_data_ordered: "emits_only (load_data w g ps) (ordered_from 1)"
  unfolding load_data_def
  by (rule ordered_bind [OF create_index_stage, of _ 2],
      rule ordered_bind [OF create_nodesets_stage, of _ 3],
      rule emits_only_weaken [OF create_relationshipsets_stage],
      erule in_stage_ordered) simp_all

lemma main_else_ordered: "emits_only (main_else w root cfg) (ordered_from 0)"
  unfolding main_else_def
  by (rule ordered_bind [OF connect_stage, of _ 0],
      rule ordered_bind [OF calls_for_each, of _ _ _ 0],
      rule download_block_stage,
      rule ordered_bind [OF run_parsers_stage, of _ 1],
      rule load_data_ordered) simp_all

text \<open>The trace of a whole run is what the else branch emits, or empty.\<close>

lemma main_trace_cases:
  "trace (snd (main w e)) = [] \<or>
   (\<exists>root cfg. trace (snd (main w e)) = emitted (main_else w root cfg) initial)"
  by (auto simp: main_def Let_def initial_def emitted_def split: sum.splits)

lemma main_trace_sorted: "sorted (map (\<lambda>ev. stage (fst ev)) (trace (snd (main w e))))"
  using main_trace_cases [of w e] emits_onlyD [OF main_else_ordered, of w _ _ initial]
  by (auto simp: ordered_from_def)

lemma load_data_sorted:
  "sorted (map (\<lambda>ev. stage (fst ev)) (emitted (load_data w g ps) s))"
  using emits_onlyD [OF load_data_ordered] by (simp add: ordered_from_def)

lemma sorted_never_after:
  assumes "\<And>a b. A a \<Longrightarrow> B b \<Longrightarrow> stage a < stage b"
  shows "sorted (map (\<lambda>ev. stage (fst ev)) tr) \<Longrightarrow> never_after A B tr"
proof (induction tr)
  case Nil
  then show ?case by simp
next
  case (Cons ev evs)
  have "\<not> A (fst x)" if "B (fst ev)" "x \<in> set evs" for x
  proof
    assume "A (fst x)"
    with that assms have "stage (fst x) < stage (fst ev)" by blast
    moreover from Cons.prems that have "stage (fst ev) \<le> stage (fst x)" by auto
    ultimately show False by simp
  qed
  with Cons show ?case by (auto simp: list_all_iff)
qed

text \<open>What \<open>never_after\<close> says, by positions.\<close>

lemma never_after_nth:
  "never_after A B tr \<longleftrightarrow>
     (\<forall>i j. i < j \<and> j < length tr \<and> B (fst (tr ! i)) \<longrightarrow> \<not> A (fst (tr ! j)))"
proof (induction tr)
  case Nil
  show ?case by simp
next
  case (Cons ev evs)
  show ?case (is "?L = ?R")
  proof
    assume l: ?L
    show ?R
    proof (intro allI impI)
      fix i j
      assume h: "i < j \<and> j < length (ev # evs) \<and> B (fst ((ev # evs) ! i))"
      show "\<not> A (fst ((ev # evs) ! j))"
      proof (cases i)
        case 0
        with h l have "list_all (\<lambda>x. \<not> A (fst x)) evs" by simp
        moreover from h 0 obtain j' where "j = Suc j'" "j' < length evs" by (cases j) auto
        ultimately show ?thesis by (simp add: list_all_length)
      next
        case (Suc i')
        with h obtain j' where "j = Suc j'" "i' < j'" "j' < length evs" by (cases j) auto
        with l h Suc Cons.IH show ?thesis by auto
      qed
    qed
  next
    assume r: ?R
    have "never_after A B evs"
      unfolding Cons.IH
    proof (intro allI impI)
      fix i j
      assume "i < j \<and> j < length evs \<and> B (fst (evs ! i))"
      with r [rule_format, of "Suc i" "Suc j"] show "\<not> A (fst (evs ! j))" by simp
    qed
    moreover have "list_all (\<lambda>x. \<not> A (fst x)) evs" if "B (fst ev)"
      unfolding list_all_length
    proof (intro allI impI)
      fix n
      assume "n < length evs"
      with r [rule_format, of 0 "Suc n"] that show "\<not> A (fst (evs ! n))" by simp
    qed
    ultimately show ?L by simp
  qed
qed

subsection \<open>Failing fast\<close>

lemma fail_fast_append:
  "fail_fast a (Inr x) \<Longrightarrow> fail_fast b r \<Longrightarrow> fail_fast (a @ b) r"
  by (induction a "Inr x :: exn + 'a" rule: fail_fast.induct) auto

lemma fail_fast_Inl:
  "fail_fast a (Inl e :: exn + 'a) \<Longrightarrow> fail_fast a (Inl e :: exn + 'b)"
  by (induction a "Inl e :: exn + 'a" rule: fail_fast.induct) auto

lemma ff_bind:
  assumes "emits m fail_fast" and "\<And>x. emits (f x) fail_fast"
  shows "emits (bind m f) fail_fast"
  by (rule emits_bind [where ?Q2.0 = "\<lambda>_. fail_fast", OF assms])
     (auto intro: fail_fast_append fail_fast_Inl)

lemma ff_call: "emits (bind (extern w c) (\<lambda>_. return ())) fail_fast"
  by (intro ff_bind emits_extern emits_return) simp_all

lemma ff_for_each:
  "(\<And>x. emits (body x) fail_fast) \<Longrightarrow> emits (for_each body xs) fail_fast"
  by (rule emits_for_each) (auto intro: fail_fast_append)

lemma create_index_ff: "emits (create_index w g ps) fail_fast"
  unfolding create_index_def
  by (intro ff_for_each ff_bind ff_call emits_get_container) simp_all

lemma create_nodesets_ff: "emits (create_nodesets w g ps) fail_fast"
  unfolding create_nodesets_def
  by (intro ff_for_each ff_bind ff_call emits_get_container) simp_all

lemma create_relationshipsets_ff: "emits (create_relationshipsets w g ps) fail_fast"
  unfolding create_relationshipsets_def
  by (intro ff_for_each ff_bind ff_call emits_get_container) simp_all

lemma load_data_ff: "emits (load_data w g ps) fail_fast"
  unfolding load_data_def
  by (intro ff_bind create_index_ff create_nodesets_ff create_relationshipsets_ff)

lemma fails_fastI: "emits m fail_fast \<Longrightarrow> fails_fast m"
  unfolding fails_fast_def by (blast dest: emitsD)

text \<open>
  Claim C5. In \<^verbatim>\<open>create_index\<close>, \<^verbatim>\<open>create_nodesets\<close>, \<^verbatim>\<open>create_relationshipsets\<close> and in
  the three of them in sequence, an exception of an index or merge call is the outcome
  of the function and no further call is made after it; when the function returns
  normally, no call has raised.
\<close>

theorem store_errors_propagate:
  "fails_fast (create_index w g ps) \<and> fails_fast (create_nodesets w g ps) \<and>
   fails_fast (create_relationshipsets w g ps) \<and> fails_fast (load_data w g ps)"
  by (intro conjI fails_fastI create_index_ff create_nodesets_ff create_relationshipsets_ff
        load_data_ff)

theorem store_errors_propagate_witness:
  "fails_fast (load_data store_down_world example_graph [0]) \<and>
   load_data store_down_world example_graph [0] two_nodesets =
     (Inl (OtherError ''store unavailable''),
      two_nodesets\<lparr>trace :=
        [(RelationshipSet_Create_Index (RelationshipSetRef ''CODES'') example_graph, Returns PyNone),
         (NodeSet_Create_Index (NodeSetRef ''Gene'') example_graph, Returns PyNone),
         (NodeSet_Create_Index (NodeSetRef ''Transcript'') example_graph, Returns PyNone),
         (NodeSet_Merge (NodeSetRef ''Gene'') example_graph,
          Raises (OtherError ''store unavailable''))]\<rparr>)"
  using store_errors_propagate [of store_down_world example_graph "[0]"]
  by (simp add: run_defs store_down_world_def example_world_def two_nodesets_def
        example_graph_def)

subsection \<open>The loading phase as one sequence of calls\<close>

lemma bind_assoc: "bind (bind m f) g = bind m (\<lambda>x. bind (f x) g)"
  by (auto simp: bind_def fun_eq_iff split: prod.splits sum.splits)

lemma bind_return: "bind (return x) f = f x"
  by (simp add: bind_def return_def fun_eq_iff)

lemma for_each_append:
  "for_each body (xs @ ys) = bind (for_each body xs) (\<lambda>_. for_each body ys)"
  by (induction xs) (simp_all add: bind_return bind_assoc)

lemma for_each_map: "for_each (\<lambda>x. body (C x)) xs = for_each body (map C xs)"
  by (induction xs) simp_all

lemma run_calls_append:
  "run_calls w (xs @ ys) = bind (run_calls w xs) (\<lambda>_. run_calls w ys)"
  by (simp add: run_calls_def for_each_append)

lemma call_loop:
  "for_each (\<lambda>x. bind (extern w (C x)) (\<lambda>_. return ())) xs = run_calls w (map C xs)"
  unfolding run_calls_def by (rule for_each_map)

lemma run_calls_heap: "heap (snd (run_calls w cs s)) = heap s"
proof (induction cs arbitrary: s)
  case Nil
  show ?case by (simp add: run_calls_def return_def)
next
  case (Cons c cs)
  show ?case
  proof (cases "respond w (trace s) c")
    case (Returns v)
    then have "run_calls w (c # cs) s = run_calls w cs (s\<lparr>trace := trace s @ [(c, Returns v)]\<rparr>)"
      by (simp add: run_calls_def bind_def extern_def return_def Let_def)
    with Cons [of "s\<lparr>trace := trace s @ [(c, Returns v)]\<rparr>"] show ?thesis by simp
  next
    case (Raises e)
    then show ?thesis by (simp add: run_calls_def bind_def extern_def return_def Let_def)
  qed
qed

lemma bind_same_heap:
  assumes "\<And>x s'. m s = (Inr x, s') \<Longrightarrow> f x s' = g x s'"
  shows "bind m f s = bind m g s"
  using assms by (auto simp: bind_def split: prod.splits sum.splits)

lemma per_parser:
  assumes body: "\<And>p s. body p s = run_calls w (pl p (heap s)) s"
  shows "for_each body ps s = run_calls w (concat (map (\<lambda>p. pl p (heap s)) ps)) s"
proof (induction ps arbitrary: s)
  case Nil
  show ?case by (simp add: run_calls_def)
next
  case (Cons p ps)
  have "for_each body (p # ps) s = bind (body p) (\<lambda>_. for_each body ps) s" by simp
  also have "\<dots> = bind (run_calls w (pl p (heap s))) (\<lambda>_. for_each body ps) s"
    by (simp add: bind_def body)
  also have "\<dots> = bind (run_calls w (pl p (heap s)))
                    (\<lambda>_. run_calls w (concat (map (\<lambda>p. pl p (heap s)) ps))) s"
  proof (rule bind_same_heap)
    fix x s'
    assume "run_calls w (pl p (heap s)) s = (Inr x, s')"
    then have "heap s' = heap s" using run_calls_heap [of w "pl p (heap s)" s] by simp
    then show "for_each body ps s' = run_calls w (concat (map (\<lambda>p. pl p (heap s)) ps)) s'"
      by (simp add: Cons)
  qed
  finally show ?case by (simp add: run_calls_append)
qed

lemma create_nodesets_plan:
  "create_nodesets w g ps s = run_calls w (node_plan g ps (heap s)) s"
  unfolding create_nodesets_def node_plan_def
  by (rule per_parser) (simp add: bind_def get_container_def call_loop)

lemma create_relationshipsets_plan:
  "create_relationshipsets w g ps s = run_calls w (relationship_plan g ps (heap s)) s"
  unfolding create_relationshipsets_def relationship_plan_def
  by (rule per_parser) (simp add: bind_def get_container_def call_loop)

lemma create_index_body:
  "bind (get_container p) (\<lambda>c.
     bind (run_calls w (A c)) (\<lambda>_. bind (get_container p) (\<lambda>c'. run_calls w (B c')))) s =
   run_calls w (A (container (heap s ! p)) @ B (container (heap s ! p))) s"
proof -
  let ?c = "container (heap s ! p)"
  have "bind (run_calls w (A ?c)) (\<lambda>_. bind (get_container p) (\<lambda>c'. run_calls w (B c'))) s =
        bind (run_calls w (A ?c)) (\<lambda>_. run_calls w (B ?c)) s"
  proof (rule bind_same_heap)
    fix x s'
    assume "run_calls w (A ?c) s = (Inr x, s')"
    then have "heap s' = heap s" using run_calls_heap [of w "A ?c" s] by simp
    then show "bind (get_container p) (\<lambda>c'. run_calls w (B c')) s' = run_calls w (B ?c) s'"
      by (simp add: bind_def get_container_def)
  qed
  then show ?thesis by (simp add: bind_def get_container_def run_calls_append)
qed

lemma create_index_plan:
  "create_index w g ps s = run_calls w (index_plan g ps (heap s)) s"
  unfolding create_index_def index_plan_def call_loop
  by (rule per_parser) (rule create_index_body)

lemma load_data_plan: "load_data w g ps s = run_calls w (load_plan g ps (heap s)) s"
proof -
  have "load_data w g ps s =
        bind (run_calls w (index_plan g ps (heap s))) (\<lambda>_.
          bind (create_nodesets w g ps) (\<lambda>_. create_relationshipsets w g ps)) s"
    by (simp add: load_data_def bind_def create_index_plan)
  also have "\<dots> = bind (run_calls w (index_plan g ps (heap s))) (\<lambda>_.
          bind (run_calls w (node_plan g ps (heap s)))
            (\<lambda>_. run_calls w (relationship_plan g ps (heap s)))) s"
  proof (rule bind_same_heap)
    fix x s'
    assume "run_calls w (index_plan g ps (heap s)) s = (Inr x, s')"
    then have h: "heap s' = heap s" using run_calls_heap [of w "index_plan g ps (heap s)" s] by simp
    have "bind (create_nodesets w g ps) (\<lambda>_. create_relationshipsets w g ps) s' =
          bind (run_calls w (node_plan g ps (heap s))) (\<lambda>_. create_relationshipsets w g ps) s'"
      by (simp add: bind_def create_nodesets_plan h)
    also have "\<dots> = bind (run_calls w (node_plan g ps (heap s)))
                      (\<lambda>_. run_calls w (relationship_plan g ps (heap s))) s'"
    proof (rule bind_same_heap)
      fix y s''
      assume "run_calls w (node_plan g ps (heap s)) s' = (Inr y, s'')"
      then have "heap s'' = heap s"
        using run_calls_heap [of w "node_plan g ps (heap s)" s'] h by simp
      then show "create_relationshipsets w g ps s'' =
                 run_calls w (relationship_plan g ps (heap s)) s''"
        by (simp add: create_relationshipsets_plan)
    qed
    finally show "bind (create_nodesets w g ps) (\<lambda>_. create_relationshipsets w g ps) s' =
          bind (run_calls w (node_plan g ps (heap s)))
            (\<lambda>_. run_calls w (relationship_plan g ps (heap s))) s'" .
  qed
  finally show ?thesis by (simp add: load_plan_def run_calls_append)
qed

lemma follows_length: "follows plan evs r \<Longrightarrow> length evs \<le> length plan"
proof -
  assume "follows plan evs r"
  then have "length (map fst evs) = length (take (length evs) plan)" by (simp add: follows_def)
  then show ?thesis by simp
qed

lemma follows_Inl:
  assumes "follows p1 a (Inl e :: exn + 'a)"
  shows "follows (p1 @ p2) a (Inl e :: exn + 'b)"
  using assms follows_length [OF assms]
  by (auto simp: follows_def intro: fail_fast_Inl)

lemma follows_append:
  assumes "follows p1 a (Inr x)" and "follows p2 b r"
  shows "follows (p1 @ p2) (a @ b) r"
proof -
  from assms(1) have a: "map fst a = p1" "fail_fast a (Inr x)" by (auto simp: follows_def)
  then have l: "length a = length p1" by (metis length_map)
  from assms(2) a l show ?thesis
    by (auto simp: follows_def intro: fail_fast_append split: if_splits)
qed

lemma run_calls_follows: "emits (run_calls w cs) (follows cs)"
proof (induction cs)
  case Nil
  show ?case by (simp add: run_calls_def emits_return follows_def)
next
  case (Cons c cs)
  have 1: "emits (bind (extern w c) (\<lambda>_. return ())) (follows [c])"
    by (auto simp: emits_def bind_def extern_def return_def follows_def Let_def
             split: reply.splits)
  have 2: "emits (for_each (\<lambda>c. bind (extern w c) (\<lambda>_. return ())) cs) (follows cs)"
    using Cons by (simp add: run_calls_def)
  show ?case
    unfolding run_calls_def for_each.simps
  proof (rule emits_bind [where ?Q1.0 = "follows [c]" and ?Q2.0 = "\<lambda>_. follows cs", OF 1 2])
    fix a e
    assume "follows [c] a (Inl e :: exn + unit)"
    then show "follows (c # cs) a (Inl e :: exn + unit)"
      using follows_Inl [of "[c]" a e cs] by simp
  next
    fix a x b r
    assume "follows [c] a (Inr x :: exn + unit)" "follows cs b (r :: exn + unit)"
    then show "follows (c # cs) (a @ b) r"
      using follows_append [of "[c]" a x cs b r] by simp
  qed
qed

lemma load_data_follows:
  "follows (load_plan g ps (heap s)) (emitted (load_data w g ps) s) (fst (load_data w g ps s))"
proof -
  have "emitted (load_data w g ps) s = emitted (run_calls w (load_plan g ps (heap s))) s"
    by (simp add: emitted_def load_data_plan)
  then show ?thesis
    using emitsD [OF run_calls_follows, of w "load_plan g ps (heap s)" s]
    by (simp add: load_data_plan)
qed

lemma load_data_heap: "heap (snd (load_data w g ps s)) = heap s"
  by (simp add: load_data_plan run_calls_heap)

lemma fail_fast_returned:
  "fail_fast evs r \<Longrightarrow> i < length evs \<Longrightarrow> list_all (\<lambda>ev. \<not> raised (snd ev)) (take i evs)"
proof (induction evs r arbitrary: i rule: fail_fast.induct)
  case (1 r)
  then show ?case by simp
next
  case (2 c e evs r)
  then show ?case by simp
next
  case (3 c v evs r)
  then show ?case by (cases i) auto
qed

lemma all_before_follows:
  assumes f: "follows (xs @ ys) evs r"
    and xs: "list_all (\<lambda>c. \<not> B c) xs"
    and ys: "list_all (\<lambda>c. \<not> A c \<and> merged_into c = Some g) ys"
    and plan: "filter A xs = plan g"
  shows "all_before A plan B evs"
  unfolding all_before_def
proof (intro allI impI)
  fix i
  assume i: "i < length evs" and b: "B (fst (evs ! i))"
  from f have pre: "map fst evs = take (length evs) (xs @ ys)" and ff: "fail_fast evs r"
    by (auto simp: follows_def)
  from f have len: "length evs \<le> length (xs @ ys)" by (rule follows_length)
  have nth: "fst (evs ! i) = (xs @ ys) ! i"
  proof -
    have "fst (evs ! i) = map fst evs ! i" using i by simp
    also have "\<dots> = take (length evs) (xs @ ys) ! i" by (simp only: pre)
    also have "\<dots> = (xs @ ys) ! i" using i by (simp only: nth_take)
    finally show ?thesis .
  qed
  have ge: "length xs \<le> i"
  proof (rule ccontr)
    assume "\<not> length xs \<le> i"
    then have "i < length xs" by simp
    then have "(xs @ ys) ! i \<in> set xs" by (simp add: nth_append)
    with xs b nth show False by (auto simp: list_all_iff)
  qed
  then have in_ys: "(xs @ ys) ! i \<in> set ys"
    using i len by (simp add: nth_append)
  with ys nth have g: "merged_into (fst (evs ! i)) = Some g" by (auto simp: list_all_iff)
  have "map fst (take i evs) = take i (xs @ ys)"
  proof -
    have "map fst (take i evs) = take i (map fst evs)" by (simp add: take_map)
    also have "\<dots> = take i (xs @ ys)" using i by (simp add: pre min_def)
    finally show ?thesis .
  qed
  then have t: "map fst (take i evs) = xs @ take (i - length xs) ys" using ge by simp
  have "filter A (take (i - length xs) ys) = []"
    using ys by (auto simp: filter_empty_conv list_all_iff dest: in_set_takeD)
  with t plan have "filter A (map fst (take i evs)) = plan g" by simp
  then have 1: "map fst (filter (\<lambda>ev. A (fst ev)) (take i evs)) = plan g"
    by (simp add: filter_map comp_def)
  have "list_all (\<lambda>ev. \<not> raised (snd ev)) (take i evs)"
    using ff i by (rule fail_fast_returned)
  then have 2: "list_all (\<lambda>ev. \<not> raised (snd ev)) (filter (\<lambda>ev. A (fst ev)) (take i evs))"
    by (simp add: list_all_iff)
  from g 1 2 show "case merged_into (fst (evs ! i)) of
           None \<Rightarrow> False
         | Some g \<Rightarrow>
             map fst (filter (\<lambda>ev. A (fst ev)) (take i evs)) = plan g \<and>
             list_all (\<lambda>ev. \<not> raised (snd ev)) (filter (\<lambda>ev. A (fst ev)) (take i evs))"
    by simp
qed

lemma plan_kinds:
  "list_all is_create_index (index_plan g ps h)"
  "list_all is_nodeset_merge (node_plan g ps h)"
  "list_all is_relationshipset_merge (relationship_plan g ps h)"
  "list_all (\<lambda>c. merged_into c = Some g) (node_plan g ps h)"
  "list_all (\<lambda>c. merged_into c = Some g) (relationship_plan g ps h)"
  by (auto simp: index_plan_def node_plan_def relationship_plan_def list_all_iff)

lemma kinds_apart:
  "is_create_index c \<Longrightarrow> \<not> is_nodeset_merge c \<and> \<not> is_relationshipset_merge c"
  "is_nodeset_merge c \<Longrightarrow> \<not> is_create_index c \<and> \<not> is_relationshipset_merge c"
  "is_relationshipset_merge c \<Longrightarrow> \<not> is_create_index c \<and> \<not> is_nodeset_merge c"
  by (cases c; simp)+

lemma filter_all: "list_all P xs \<Longrightarrow> filter P xs = xs"
  by (simp add: list_all_iff)

lemma filter_none: "list_all Q xs \<Longrightarrow> (\<And>c. Q c \<Longrightarrow> \<not> P c) \<Longrightarrow> filter P xs = []"
  by (auto simp: list_all_iff filter_empty_conv)

lemma load_data_nodes_before:
  "all_before is_nodeset_merge (\<lambda>g. node_plan g ps (heap s)) is_relationshipset_merge
     (emitted (load_data w g ps) s)"
proof (rule all_before_follows [where xs = "index_plan g ps (heap s) @ node_plan g ps (heap s)"
      and ys = "relationship_plan g ps (heap s)" and g = g])
  show "follows ((index_plan g ps (heap s) @ node_plan g ps (heap s)) @
           relationship_plan g ps (heap s)) (emitted (load_data w g ps) s)
          (fst (load_data w g ps s))"
    using load_data_follows [of g ps s w] by (simp add: load_plan_def)
  show "list_all (\<lambda>c. \<not> is_relationshipset_merge c)
          (index_plan g ps (heap s) @ node_plan g ps (heap s))"
    using plan_kinds(1,2) [of g ps "heap s"]
    by (auto simp: list_all_iff dest: kinds_apart)
  show "list_all (\<lambda>c. \<not> is_nodeset_merge c \<and> merged_into c = Some g)
          (relationship_plan g ps (heap s))"
    using plan_kinds(3,5) [of g ps "heap s"]
    by (auto simp: list_all_iff dest: kinds_apart)
  show "filter is_nodeset_merge (index_plan g ps (heap s) @ node_plan g ps (heap s)) =
          node_plan g ps (heap s)"
    using filter_none [OF plan_kinds(1), of is_nodeset_merge g ps "heap s"]
      filter_all [OF plan_kinds(2), of g ps "heap s"]
    by (auto dest: kinds_apart)
qed

lemma load_data_indexes_before:
  "all_before is_create_index (\<lambda>g. index_plan g ps (heap s)) is_merge
     (emitted (load_data w g ps) s)"
proof (rule all_before_follows [where xs = "index_plan g ps (heap s)"
      and ys = "node_plan g ps (heap s) @ relationship_plan g ps (heap s)" and g = g])
  show "follows (index_plan g ps (heap s) @
           node_plan g ps (heap s) @ relationship_plan g ps (heap s))
          (emitted (load_data w g ps) s) (fst (load_data w g ps s))"
    using load_data_follows [of g ps s w] by (simp add: load_plan_def)
  show "list_all (\<lambda>c. \<not> is_merge c) (index_plan g ps (heap s))"
    using plan_kinds(1) [of g ps "heap s"]
    by (auto simp: list_all_iff is_merge_def dest: kinds_apart)
  show "list_all (\<lambda>c. \<not> is_create_index c \<and> merged_into c = Some g)
          (node_plan g ps (heap s) @ relationship_plan g ps (heap s))"
    using plan_kinds(2,3,4,5) [of g ps "heap s"]
    by (auto simp: list_all_iff dest: kinds_apart)
  show "filter is_create_index (index_plan g ps (heap s)) = index_plan g ps (heap s)"
    by (rule filter_all [OF plan_kinds(1)])
qed

lemma plan_containers:
  "node_plan g [0 ..< length h] h =
     concat (map (\<lambda>c. map (\<lambda>n. NodeSet_Merge n g) (nodesets c)) (map container h))"
  "index_plan g [0 ..< length h] h =
     concat (map (\<lambda>c. map (\<lambda>r. RelationshipSet_Create_Index r g) (relationshipsets c) @
                       map (\<lambda>n. NodeSet_Create_Index n g) (nodesets c)) (map container h))"
  unfolding node_plan_def index_plan_def
  by (rule arg_cong [where f = concat], rule nth_equalityI, simp_all)+

subsection \<open>The parsers handed to the loading phase\<close>

lemma bind_Inr:
  assumes "bind m f s = (Inr y, s')"
  obtains x s1 where "m s = (Inr x, s1)" and "f x s1 = (Inr y, s')"
  using assms by (auto simp: bind_def split: prod.splits sum.splits)

lemma bind_cases:
  obtains (raised) e where "fst (m s) = Inl e" and "bind m f s = (Inl e, snd (m s))"
  | (returned) x where "fst (m s) = Inr x" and "bind m f s = f x (snd (m s))"
  by (cases "m s"; cases "fst (m s)") (auto simp: bind_def)

lemma extern_heap: "heap (snd (extern w c s)) = heap s"
  by (simp add: extern_def Let_def split: reply.splits)

lemma bind_heap:
  assumes "\<And>s. heap (snd (m s)) = heap s" and "\<And>x s. heap (snd (f x s)) = heap s"
  shows "heap (snd (bind m f s)) = heap s"
proof (cases rule: bind_cases [of m s f])
  case (raised e)
  then show ?thesis using assms(1) [of s] by simp
next
  case (returned x)
  then show ?thesis using assms(1) [of s] assms(2) [of x "snd (m s)"] by simp
qed

lemma for_each_heap:
  assumes "\<And>x s. heap (snd (body x s)) = heap s"
  shows "heap (snd (for_each body xs s)) = heap s"
proof (induction xs arbitrary: s)
  case Nil
  show ?case by (simp add: return_def)
next
  case (Cons x xs)
  show ?case unfolding for_each.simps by (rule bind_heap) (simp_all add: assms Cons)
qed

lemma connect_heap: "heap (snd (connect w cfg s)) = heap s"
  unfolding connect_def
  by (intro bind_heap) (simp_all add: lift_def return_def extern_heap)

lemma download_block_heap: "heap (snd (download_block w root b s)) = heap s"
proof (cases b)
  case (fields ds va taxids)
  show ?thesis
    unfolding download_block_def fields prod.case
    by (cases va; simp only: version_arg.case; intro bind_heap)
       (simp_all add: extern_heap return_def bind_heap)
qed

lemma bind_size:
  assumes "\<And>s. length (heap (snd (m s))) = length (heap s)"
    and "\<And>x s. length (heap (snd (f x s))) = length (heap s)"
  shows "length (heap (snd (bind m f s))) = length (heap s)"
proof (cases rule: bind_cases [of m s f])
  case (raised e)
  then show ?thesis using assms(1) [of s] by simp
next
  case (returned x)
  then show ?thesis using assms(1) [of s] assms(2) [of x "snd (m s)"] by simp
qed

lemma for_each_size:
  assumes "\<And>x s. length (heap (snd (body x s))) = length (heap s)"
  shows "length (heap (snd (for_each body xs s))) = length (heap s)"
proof (induction xs arbitrary: s)
  case Nil
  show ?case by (simp add: return_def)
next
  case (Cons x xs)
  show ?case unfolding for_each.simps by (rule bind_size) (simp_all add: assms Cons)
qed

lemma append_instance_size: "length (heap (snd (append_instance w p ds s))) = length (heap s)"
  by (simp add: append_instance_def bind_def extern_def Let_def split: reply.splits)

lemma set_taxid_size: "length (heap (snd (set_taxid p t s))) = length (heap s)"
  by (simp add: set_taxid_def split: option.splits)

lemma run_parser_result:
  assumes "run_parser w p s = (Inr q, s')"
  shows "q = p \<and> length (heap s') = length (heap s)"
  using assms
  by (auto simp: run_parser_def run_with_mounted_arguments_def bind_def return_def Let_def
           split: reply.splits)

lemma new_parser_result:
  assumes "new_parser w cls root s = (Inr p, s')"
  shows "p = length (heap s) \<and> length (heap s') = Suc (length (heap s))"
  using assms
  by (auto simp: new_parser_def bind_def extern_def Let_def split: reply.splits)

lemma parser_block_result:
  assumes "parser_block w root b s = (Inr q, s')"
  shows "q = length (heap s) \<and> length (heap s') = Suc (length (heap s))"
proof -
  obtain cls sources t where b: "b = (cls, sources, t)" by (cases b)
  from assms [unfolded b parser_block_def prod.case]
  obtain p s1 where 1: "new_parser w cls root s = (Inr p, s1)"
    and r1: "bind (for_each (append_instance w p) sources)
               (\<lambda>_. bind (set_taxid p t) (\<lambda>_. run_parser w p)) s1 = (Inr q, s')"
    by (rule bind_Inr)
  from r1 obtain u s2 where 2: "for_each (append_instance w p) sources s1 = (Inr u, s2)"
    and r2: "bind (set_taxid p t) (\<lambda>_. run_parser w p) s2 = (Inr q, s')"
    by (rule bind_Inr)
  from r2 obtain u' s3 where 3: "set_taxid p t s2 = (Inr u', s3)"
    and 4: "run_parser w p s3 = (Inr q, s')"
    by (rule bind_Inr)
  have "length (heap s2) = length (heap s1)"
    using for_each_size [of "append_instance w p" sources s1, OF append_instance_size] 2 by simp
  moreover have "length (heap s3) = length (heap s2)"
    using set_taxid_size [of p t s2] 3 by simp
  ultimately show ?thesis
    using new_parser_result [OF 1] run_parser_result [OF 4] by simp
qed

lemma run_parsers_result:
  "run_parsers w root bs ps s = (Inr pd, s') \<Longrightarrow>
   pd = ps @ [length (heap s) ..< length (heap s')] \<and>
   length (heap s') = length (heap s) + length bs"
proof (induction bs arbitrary: ps s)
  case Nil
  then show ?case by (simp add: return_def)
next
  case (Cons b bs)
  from Cons.prems [unfolded run_parsers.simps]
  obtain p s1 where 1: "parser_block w root b s = (Inr p, s1)"
    and 2: "run_parsers w root bs (ps @ [p]) s1 = (Inr pd, s')"
    by (rule bind_Inr)
  from parser_block_result [OF 1] have p: "p = length (heap s)"
    "length (heap s1) = Suc (length (heap s))" by simp_all
  from Cons.IH [OF 2] have pd: "pd = (ps @ [p]) @ [length (heap s1) ..< length (heap s')]"
    and l: "length (heap s') = length (heap s1) + length bs" by simp_all
  from l p have "length (heap s) < length (heap s')" by simp
  then have "[length (heap s) ..< length (heap s')] =
      length (heap s) # [Suc (length (heap s)) ..< length (heap s')]"
    by (rule upt_conv_Cons)
  with pd l p show ?case by simp
qed

lemma all_before_prefix:
  assumes "calls_all (\<lambda>c. \<not> A c \<and> \<not> B c) pre" and "all_before A plan B evs"
  shows "all_before A plan B (pre @ evs)"
  unfolding all_before_def
proof (intro allI impI)
  fix i
  assume i: "i < length (pre @ evs)" and b: "B (fst ((pre @ evs) ! i))"
  have none: "filter (\<lambda>ev. A (fst ev)) pre = []"
    using assms(1) by (auto simp: calls_all_def list_all_iff filter_empty_conv)
  have ge: "length pre \<le> i"
  proof (rule ccontr)
    assume "\<not> length pre \<le> i"
    then have "i < length pre" by simp
    then have "(pre @ evs) ! i \<in> set pre" by (simp add: nth_append)
    with assms(1) b show False by (auto simp: calls_all_def list_all_iff)
  qed
  let ?j = "i - length pre"
  from ge i have j: "?j < length evs" "(pre @ evs) ! i = evs ! ?j"
    by (auto simp: nth_append)
  from ge have "take i (pre @ evs) = pre @ take ?j evs" by simp
  then have t: "filter (\<lambda>ev. A (fst ev)) (take i (pre @ evs)) =
      filter (\<lambda>ev. A (fst ev)) (take ?j evs)"
    by (simp only: filter_append none append_Nil)
  from assms(2) j b have "case merged_into (fst (evs ! ?j)) of
           None \<Rightarrow> False
         | Some g \<Rightarrow>
             map fst (filter (\<lambda>ev. A (fst ev)) (take ?j evs)) = plan g \<and>
             list_all (\<lambda>ev. \<not> raised (snd ev)) (filter (\<lambda>ev. A (fst ev)) (take ?j evs))"
    by (simp add: all_before_def)
  then show "case merged_into (fst ((pre @ evs) ! i)) of
           None \<Rightarrow> False
         | Some g \<Rightarrow>
             map fst (filter (\<lambda>ev. A (fst ev)) (take i (pre @ evs))) = plan g \<and>
             list_all (\<lambda>ev. \<not> raised (snd ev))
               (filter (\<lambda>ev. A (fst ev)) (take i (pre @ evs)))"
    by (simp only: j(2) t)
qed

lemma all_before_none:
  "calls_all (\<lambda>c. \<not> B c) evs \<Longrightarrow> all_before A plan B evs"
  by (auto simp: all_before_def calls_all_def list_all_length)

text \<open>
  A run of the main block either ends before loading, having made no index or merge
  call, or is the loading of all parser objects, in the order they were created.
\<close>

lemma main_else_shape:
  obtains (early) "calls_all (\<lambda>c. stage c = 0) (trace (snd (main_else w root cfg initial)))"
  | (loaded) g s3 where "calls_all (\<lambda>c. stage c = 0) (trace s3)"
      and "main_else w root cfg initial = load_data w g [0 ..< length (heap s3)] s3"
proof -
  let ?dl = "for_each (download_block w root) download_blocks"
  let ?rest2 = "\<lambda>graph. bind (run_parsers w root parser_blocks [])
                  (\<lambda>parsers_done. load_data w graph parsers_done)"
  let ?rest1 = "\<lambda>graph. bind ?dl (\<lambda>_. ?rest2 graph)"
  let ?s1 = "snd (connect w cfg initial)"
  have c: "trace ?s1 = emitted (connect w cfg) initial"
    "calls_all (\<lambda>c. stage c = 0) (emitted (connect w cfg) initial)"
    using emits_onlyD [OF connect_stage, of w cfg initial] by (simp_all add: initial_def)
  have h1: "heap ?s1 = []" by (simp add: connect_heap initial_def)
  show ?thesis
  proof (cases rule: bind_cases [of "connect w cfg" initial ?rest1])
    case (raised e)
    then have "trace (snd (main_else w root cfg initial)) = trace ?s1"
      by (simp add: main_else_def)
    with c show ?thesis by (intro early) simp
  next
    case c_ok: (returned g)
    let ?s2 = "snd (?dl ?s1)"
    have d: "trace ?s2 = trace ?s1 @ emitted ?dl ?s1"
      "calls_all (\<lambda>c. stage c = 0) (emitted ?dl ?s1)"
      using emits_onlyD [OF calls_for_each, of "download_block w root" "\<lambda>c. stage c = 0"
          download_blocks ?s1] download_block_stage [of w root]
      by simp_all
    have h2: "heap ?s2 = []"
      using for_each_heap [of "download_block w root" download_blocks ?s1, OF download_block_heap]
        h1 by simp
    show ?thesis
    proof (cases rule: bind_cases [of ?dl ?s1 "\<lambda>_. ?rest2 g"])
      case (raised e)
      with c_ok have "trace (snd (main_else w root cfg initial)) = trace ?s2"
        by (simp add: main_else_def)
      with c d show ?thesis by (intro early) (simp add: calls_all_append)
    next
      case d_ok: (returned u)
      let ?rp = "run_parsers w root parser_blocks []"
      let ?s3 = "snd (?rp ?s2)"
      have p: "trace ?s3 = trace ?s2 @ emitted ?rp ?s2"
        "calls_all (\<lambda>c. stage c = 0) (emitted ?rp ?s2)"
        using emits_onlyD [OF run_parsers_stage, of w root parser_blocks "[]" ?s2] by simp_all
      show ?thesis
      proof (cases rule: bind_cases [of ?rp ?s2 "\<lambda>parsers_done. load_data w g parsers_done"])
        case (raised e)
        with c_ok d_ok have "trace (snd (main_else w root cfg initial)) = trace ?s3"
          by (simp add: main_else_def)
        with c d p show ?thesis by (intro early) (simp add: calls_all_append)
      next
        case (returned pd)
        then have "?rp ?s2 = (Inr pd, ?s3)" by (simp add: prod_eq_iff)
        from run_parsers_result [OF this] h2 have "pd = [0 ..< length (heap ?s3)]" by simp
        with returned c_ok d_ok
        have "main_else w root cfg initial = load_data w g [0 ..< length (heap ?s3)] ?s3"
          by (simp add: main_else_def)
        moreover have "calls_all (\<lambda>c. stage c = 0) (trace ?s3)"
          using c d p by (simp add: calls_all_append)
        ultimately show ?thesis by (intro loaded)
      qed
    qed
  qed
qed

lemma main_all_before:
  assumes kinds: "\<And>c. stage c = 0 \<Longrightarrow> \<not> A c \<and> \<not> B c"
    and load: "\<And>g ps s. all_before A (\<lambda>g. plan g ps (heap s)) B (emitted (load_data w g ps) s)"
  shows "all_before A (\<lambda>g. plan g [0 ..< length (heap (snd (main w e)))] (heap (snd (main w e)))) B
           (trace (snd (main w e)))"
proof -
  have no_events: "all_before A pl B []" for pl by (simp add: all_before_def)
  have run: "all_before A
        (\<lambda>g. plan g [0 ..< length (heap (snd (main_else w root cfg initial)))]
               (heap (snd (main_else w root cfg initial)))) B
        (trace (snd (main_else w root cfg initial)))" for root cfg
  proof (cases rule: main_else_shape [of w root cfg])
    case early
    then have "calls_all (\<lambda>c. \<not> B c) (trace (snd (main_else w root cfg initial)))"
      by (rule calls_all_mono) (simp add: kinds)
    then show ?thesis by (rule all_before_none)
  next
    case (loaded g s3)
    let ?ps = "[0 ..< length (heap s3)]"
    have h: "heap (snd (main_else w root cfg initial)) = heap s3"
      by (simp add: loaded(2) load_data_heap)
    have t: "trace (snd (main_else w root cfg initial)) = trace s3 @ emitted (load_data w g ?ps) s3"
      using emitsD [OF load_data_ff, of w g ?ps s3] by (simp add: loaded(2))
    have "calls_all (\<lambda>c. \<not> A c \<and> \<not> B c) (trace s3)"
      using loaded(1) by (rule calls_all_mono) (simp add: kinds)
    then have "all_before A (\<lambda>g. plan g ?ps (heap s3)) B
        (trace s3 @ emitted (load_data w g ?ps) s3)"
      using load by (rule all_before_prefix)
    then show ?thesis by (simp add: h t)
  qed
  have e: "all_before A (\<lambda>g. plan g [] []) B []" by (rule no_events)
  show ?thesis
  proof (cases "neo4j_config_dict (json_loads w) (NEO4J e)")
    case (Inl x)
    then show ?thesis using e by (simp add: main_def Let_def initial_def)
  next
    case (Inr cfg)
    show ?thesis
    proof (cases "lower (getenv (RUN_MODE e) ''prod'') = ''test''")
      case True
      with Inr show ?thesis using e by (simp add: main_def Let_def initial_def)
    next
      case False
      with Inr show ?thesis using run by (simp add: main_def Let_def)
    qed
  qed
qed

lemma stage_0:
  "stage c = 0 \<Longrightarrow> \<not> is_create_index c \<and> \<not> is_nodeset_merge c \<and> \<not> is_relationshipset_merge c"
  by (simp add: stage_def split: if_splits)

text \<open>
  Claim C1. In every run of the three loading statements on any list of parsers, and in
  every run of the script: no \<^verbatim>\<open>nodeset.merge\<close> call comes after a
  \<^verbatim>\<open>relationshipset.merge\<close> call; and when a \<^verbatim>\<open>relationshipset.merge\<close> call is made,
  the \<^verbatim>\<open>nodeset.merge\<close> calls made before it are exactly the merges of every NodeSet of
  every parser of the list (in the script: of every parser object created), on the same
  graph, in order, and each of them has returned. Calls are sequential, so a call that
  is in the trace before another one was over before the other began. The loading
  statements make the index requests, the node merges and the relationship merges of
  \<open>load_plan\<close> in this order, all of them when they end normally, and a beginning of
  this sequence when a call raises.
\<close>

theorem node_merges_before_relationship_merges:
  "never_after is_nodeset_merge is_relationshipset_merge (trace (snd (main w e))) \<and>
   never_after is_nodeset_merge is_relationshipset_merge (emitted (load_data w g ps) s) \<and>
   all_before is_nodeset_merge (\<lambda>g. node_plan g ps (heap s)) is_relationshipset_merge
     (emitted (load_data w g ps) s) \<and>
   all_before is_nodeset_merge
     (\<lambda>g. node_plan g [0 ..< length (heap (snd (main w e)))] (heap (snd (main w e))))
     is_relationshipset_merge (trace (snd (main w e))) \<and>
   follows (load_plan g ps (heap s)) (emitted (load_data w g ps) s) (fst (load_data w g ps s))"
proof -
  have "stage a < stage b" if "is_nodeset_merge a" "is_relationshipset_merge b" for a b
    using that by (cases a; cases b) (simp_all add: stage_def)
  then have "never_after is_nodeset_merge is_relationshipset_merge (trace (snd (main w e)))"
    "never_after is_nodeset_merge is_relationshipset_merge (emitted (load_data w g ps) s)"
    using main_trace_sorted load_data_sorted by (blast intro: sorted_never_after)+
  moreover have "all_before is_nodeset_merge
     (\<lambda>g. node_plan g [0 ..< length (heap (snd (main w e)))] (heap (snd (main w e))))
     is_relationshipset_merge (trace (snd (main w e)))"
    by (rule main_all_before [where plan = node_plan])
       (simp_all add: stage_0 load_data_nodes_before)
  ultimately show ?thesis
    by (simp add: load_data_nodes_before load_data_follows)
qed

theorem node_merges_before_relationship_merges_witness:
  "map fst (emitted (load_data example_world example_graph [0]) two_nodesets) =
     [RelationshipSet_Create_Index (RelationshipSetRef ''CODES'') example_graph,
      NodeSet_Create_Index (NodeSetRef ''Gene'') example_graph,
      NodeSet_Create_Index (NodeSetRef ''Transcript'') example_graph,
      NodeSet_Merge (NodeSetRef ''Gene'') example_graph,
      NodeSet_Merge (NodeSetRef ''Transcript'') example_graph,
      RelationshipSet_Merge (RelationshipSetRef ''CODES'') example_graph] \<and>
   node_plan example_graph [0] (heap two_nodesets) =
     [NodeSet_Merge (NodeSetRef ''Gene'') example_graph,
      NodeSet_Merge (NodeSetRef ''Transcript'') example_graph] \<and>
   all_before is_nodeset_merge (\<lambda>g. node_plan g [0] (heap two_nodesets))
     is_relationshipset_merge
     (emitted (load_data example_world example_graph [0]) two_nodesets) \<and>
   list_ex (\<lambda>ev. is_relationshipset_merge (fst ev))
     (trace (snd (main example_world example_env))) \<and>
   node_plan example_graph [0 ..< length (heap (snd (main example_world example_env)))]
       (heap (snd (main example_world example_env))) =
     [NodeSet_Merge (NodeSetRef ''Gene'') example_graph,
      NodeSet_Merge (NodeSetRef ''EnsemblGene'') example_graph,
      NodeSet_Merge (NodeSetRef ''Transcript'') example_graph] \<and>
   all_before is_nodeset_merge
     (\<lambda>g. node_plan g [0 ..< length (heap (snd (main example_world example_env)))]
            (heap (snd (main example_world example_env))))
     is_relationshipset_merge (trace (snd (main example_world example_env)))"
proof -
  have 1: "map fst (emitted (load_data example_world example_graph [0]) two_nodesets) =
     [RelationshipSet_Create_Index (RelationshipSetRef ''CODES'') example_graph,
      NodeSet_Create_Index (NodeSetRef ''Gene'') example_graph,
      NodeSet_Create_Index (NodeSetRef ''Transcript'') example_graph,
      NodeSet_Merge (NodeSetRef ''Gene'') example_graph,
      NodeSet_Merge (NodeSetRef ''Transcript'') example_graph,
      RelationshipSet_Merge (RelationshipSetRef ''CODES'') example_graph]"
    by (simp add: run_defs emitted_def example_world_def two_nodesets_def)
  have 2: "node_plan example_graph [0] (heap two_nodesets) =
     [NodeSet_Merge (NodeSetRef ''Gene'') example_graph,
      NodeSet_Merge (NodeSetRef ''Transcript'') example_graph]"
    by (simp add: node_plan_def two_nodesets_def)
  have 3: "list_ex (\<lambda>ev. is_relationshipset_merge (fst ev))
     (trace (snd (main example_world example_env)))"
    by (simp add: example_run) (simp add: example_trace_def)
  have 4: "node_plan example_graph [0 ..< length (heap (snd (main example_world example_env)))]
       (heap (snd (main example_world example_env))) =
     [NodeSet_Merge (NodeSetRef ''Gene'') example_graph,
      NodeSet_Merge (NodeSetRef ''EnsemblGene'') example_graph,
      NodeSet_Merge (NodeSetRef ''Transcript'') example_graph]"
    by (simp add: plan_containers example_containers)
  show ?thesis
    using node_merges_before_relationship_merges [of example_world example_env example_graph "[0]" two_nodesets] 1 2 3 4
    by simp
qed

text \<open>
  Claim C3. In every run of the three loading statements on any list of parsers, and in
  every run of the script: no index-creation request comes after a merge call; and when
  a merge call (of a NodeSet or of a RelationshipSet) is made, the index-creation
  requests made before it are exactly the requests for every RelationshipSet and every
  NodeSet of every parser of the list (in the script: of every parser object created),
  on the same graph, in order, and each of them has returned.
\<close>

theorem indexes_before_merges:
  "never_after is_create_index is_merge (trace (snd (main w e))) \<and>
   never_after is_create_index is_merge (emitted (load_data w g ps) s) \<and>
   all_before is_create_index (\<lambda>g. index_plan g ps (heap s)) is_merge
     (emitted (load_data w g ps) s) \<and>
   all_before is_create_index
     (\<lambda>g. index_plan g [0 ..< length (heap (snd (main w e)))] (heap (snd (main w e))))
     is_merge (trace (snd (main w e))) \<and>
   follows (load_plan g ps (heap s)) (emitted (load_data w g ps) s) (fst (load_data w g ps s))"
proof -
  have "stage a < stage b" if "is_create_index a" "is_merge b" for a b
    using that by (cases a; cases b) (simp_all add: stage_def is_merge_def)
  then have "never_after is_create_index is_merge (trace (snd (main w e)))"
    "never_after is_create_index is_merge (emitted (load_data w g ps) s)"
    using main_trace_sorted load_data_sorted by (blast intro: sorted_never_after)+
  moreover have "all_before is_create_index
     (\<lambda>g. index_plan g [0 ..< length (heap (snd (main w e)))] (heap (snd (main w e))))
     is_merge (trace (snd (main w e)))"
    by (rule main_all_before [where plan = index_plan])
       (simp_all add: stage_0 is_merge_def load_data_indexes_before)
  ultimately show ?thesis
    by (simp add: load_data_indexes_before load_data_follows)
qed

theorem indexes_before_merges_witness:
  "map fst (emitted (load_data example_world example_graph [0]) two_nodesets) =
     [RelationshipSet_Create_Index (RelationshipSetRef ''CODES'') example_graph,
      NodeSet_Create_Index (NodeSetRef ''Gene'') example_graph,
      NodeSet_Create_Index (NodeSetRef ''Transcript'') example_graph,
      NodeSet_Merge (NodeSetRef ''Gene'') example_graph,
      NodeSet_Merge (NodeSetRef ''Transcript'') example_graph,
      RelationshipSet_Merge (RelationshipSetRef ''CODES'') example_graph] \<and>
   index_plan example_graph [0] (heap two_nodesets) =
     [RelationshipSet_Create_Index (RelationshipSetRef ''CODES'') example_graph,
      NodeSet_Create_Index (NodeSetRef ''Gene'') example_graph,
      NodeSet_Create_Index (NodeSetRef ''Transcript'') example_graph] \<and>
   all_before is_create_index (\<lambda>g. index_plan g [0] (heap two_nodesets)) is_merge
     (emitted (load_data example_world example_graph [0]) two_nodesets) \<and>
   list_ex (\<lambda>ev. is_merge (fst ev)) (trace (snd (main example_world example_env))) \<and>
   index_plan example_graph [0 ..< length (heap (snd (main example_world example_env)))]
       (heap (snd (main example_world example_env))) =
     [NodeSet_Create_Index (NodeSetRef ''Gene'') example_graph,
      RelationshipSet_Create_Index (RelationshipSetRef ''CODES'') example_graph,
      NodeSet_Create_Index (NodeSetRef ''EnsemblGene'') example_graph,
      NodeSet_Create_Index (NodeSetRef ''Transcript'') example_graph,
      RelationshipSet_Create_Index (RelationshipSetRef ''MAPS'') example_graph] \<and>
   all_before is_create_index
     (\<lambda>g. index_plan g [0 ..< length (heap (snd (main example_world example_env)))]
            (heap (snd (main example_world example_env))))
     is_merge (trace (snd (main example_world example_env)))"
proof -
  have 1: "map fst (emitted (load_data example_world example_graph [0]) two_nodesets) =
     [RelationshipSet_Create_Index (RelationshipSetRef ''CODES'') example_graph,
      NodeSet_Create_Index (NodeSetRef ''Gene'') example_graph,
      NodeSet_Create_Index (NodeSetRef ''Transcript'') example_graph,
      NodeSet_Merge (NodeSetRef ''Gene'') example_graph,
      NodeSet_Merge (NodeSetRef ''Transcript'') example_graph,
      RelationshipSet_Merge (RelationshipSetRef ''CODES'') example_graph]"
    by (simp add: run_defs emitted_def example_world_def two_nodesets_def)
  have 2: "index_plan example_graph [0] (heap two_nodesets) =
     [RelationshipSet_Create_Index (RelationshipSetRef ''CODES'') example_graph,
      NodeSet_Create_Index (NodeSetRef ''Gene'') example_graph,
      NodeSet_Create_Index (NodeSetRef ''Transcript'') example_graph]"
    by (simp add: index_plan_def two_nodesets_def)
  have 3: "list_ex (\<lambda>ev. is_merge (fst ev)) (trace (snd (main example_world example_env)))"
    by (simp add: example_run) (simp add: example_trace_def is_merge_def)
  have 4: "index_plan example_graph [0 ..< length (heap (snd (main example_world example_env)))]
       (heap (snd (main example_world example_env))) =
     [NodeSet_Create_Index (NodeSetRef ''Gene'') example_graph,
      RelationshipSet_Create_Index (RelationshipSetRef ''CODES'') example_graph,
      NodeSet_Create_Index (NodeSetRef ''EnsemblGene'') example_graph,
      NodeSet_Create_Index (NodeSetRef ''Transcript'') example_graph,
      RelationshipSet_Create_Index (RelationshipSetRef ''MAPS'') example_graph]"
    by (simp add: plan_containers example_containers)
  show ?thesis
    using indexes_before_merges [of example_world example_env example_graph "[0]" two_nodesets]
      1 2 3 4
    by simp
qed

subsection \<open>Running one parser\<close>

text \<open>
  Claim C7. \<^verbatim>\<open>run_parser(parser)\<close> makes exactly one external call,
  \<^verbatim>\<open>run_with_mounted_arguments\<close> on that parser. When the call returns, \<^verbatim>\<open>run_parser\<close>
  returns the reference it was given, and the container read from that reference is the
  one the run produced; when the call raises, the exception is the outcome.
\<close>

theorem run_parser_once_same_object:
  assumes "p < length (heap s)"
  shows "emitted (run_parser w p) s =
           [(Run_With_Mounted_Arguments p, respond w (trace s) (Run_With_Mounted_Arguments p))] \<and>
         (case respond w (trace s) (Run_With_Mounted_Arguments p) of
            Raises x \<Rightarrow> fst (run_parser w p s) = Inl x
          | Returns v \<Rightarrow>
              fst (run_parser w p s) = Inr p \<and>
              heap (snd (run_parser w p s)) =
                (heap s)[p := (heap s ! p)\<lparr>container := parse_result w (trace s) (heap s ! p)\<rparr>] \<and>
              fst (get_container p (snd (run_parser w p s))) =
                Inr (parse_result w (trace s) (heap s ! p)))"
  using assms
  by (simp add: run_parser_def run_with_mounted_arguments_def bind_def return_def Let_def
        emitted_def get_container_def split: reply.splits)

theorem run_parser_once_same_object_witness:
  "0 < length (heap unparsed) \<and>
   run_parser example_world 0 unparsed =
     (Inr 0,
      \<lparr>trace = [(Run_With_Mounted_Arguments 0, Returns PyNone)],
       heap = [\<lparr>parser_class = EnsemblEntityParser, root_dir = ''/download'',
                datasource_instances = [PyObj ''instance''], taxid = Some ''9606'',
                container = \<lparr>nodesets = [NodeSetRef ''EnsemblGene'', NodeSetRef ''Transcript''],
                             relationshipsets = [RelationshipSetRef ''CODES'']\<rparr>\<rparr>]\<rparr>) \<and>
   fst (get_container 0 (snd (run_parser example_world 0 unparsed))) =
     Inr \<lparr>nodesets = [NodeSetRef ''EnsemblGene'', NodeSetRef ''Transcript''],
          relationshipsets = [RelationshipSetRef ''CODES'']\<rparr>"
proof -
  have h: "0 < length (heap unparsed)" by (simp add: unparsed_def)
  show ?thesis
    using h run_parser_once_same_object [OF h, of example_world]
    by (simp add: run_defs unparsed_def example_world_def example_parse_def emitted_def)
qed

subsection \<open>Configuration and run mode\<close>

lemma first_char:
  "replicate 5000 CHR ''1'' = CHR ''1'' # replicate 4999 CHR ''1''"
  "replicate 100000 CHR ''['' = CHR ''['' # replicate 99999 CHR ''[''"
proof -
  have "(5000 :: nat) = Suc 4999" "(100000 :: nat) = Suc 99999" by simp_all
  then show "replicate 5000 CHR ''1'' = CHR ''1'' # replicate 4999 CHR ''1''"
    "replicate 100000 CHR ''['' = CHR ''['' # replicate 99999 CHR ''[''"
    by (simp_all only: replicate_Suc)
qed

lemmas string_defs =
  long_number_def long_number_replaced_def deep_list_def deep_list_replaced_def
  quoted_number_def quoted_number_replaced_def

lemma replaced:
  "replace_quotes long_number = long_number_replaced"
  "replace_quotes deep_list = deep_list_replaced"
  "replace_quotes quoted_number = quoted_number_replaced"
  "replace_quotes ''['a']'' = [CHR ''['', CHR 0x22, CHR ''a'', CHR 0x22, CHR '']'']"
  "replace_quotes ''not json'' = ''not json''"
  by (simp_all add: replace_quotes_def string_defs)

lemma loads_values:
  "stdlib_loads long_number =
     Inl (ValueError ''Exceeds the limit (4300 digits) for integer string conversion'')"
  "stdlib_loads long_number_replaced =
     Inr (JList [JStr [], JStr ('', '' @ replicate 5000 CHR ''1'' @ '', ''), JStr []])"
  "stdlib_loads deep_list =
     Inl (RecursionError ''maximum recursion depth exceeded while decoding a JSON array'')"
  "stdlib_loads deep_list_replaced =
     Inr (JList [JStr [],
            JStr ('', '' @ replicate 100000 CHR ''['' @ replicate 100000 CHR '']'' @ '', ''),
            JStr []])"
  "stdlib_loads quoted_number = Inl (JSONDecodeError ''Expecting value'')"
  "stdlib_loads quoted_number_replaced =
     Inl (ValueError ''Exceeds the limit (4300 digits) for integer string conversion'')"
  "stdlib_loads ''['a']'' = Inl (JSONDecodeError ''Expecting value'')"
  "stdlib_loads [CHR ''['', CHR 0x22, CHR ''a'', CHR 0x22, CHR '']''] = Inr (JList [JStr ''a''])"
  "stdlib_loads ''not json'' = Inl (JSONDecodeError ''Expecting value'')"
  by (simp_all add: stdlib_loads_def) (simp_all add: string_defs first_char)

text \<open>
  Claim C8, as stated, says that for every string decoding the configuration succeeds
  exactly when the string, or the string with every single quote replaced by a double
  quote, is valid JSON, and that otherwise the JSONDecodeError of the second attempt
  propagates. For \<open>long_number\<close> and for \<open>deep_list\<close> the replaced string is valid JSON
  (\<^verbatim>\<open>json.loads\<close> returns a list) and decoding fails: the first attempt raises
  ValueError, or RecursionError, which line 23 does not catch, so that no second
  attempt is made. For \<open>quoted_number\<close> both attempts fail and the exception that
  propagates is the ValueError of the second attempt, not a JSONDecodeError.
\<close>

theorem neo4j_config_counterexample:
  "stdlib_loads (replace_quotes long_number) =
     Inr (JList [JStr [], JStr ('', '' @ replicate 5000 CHR ''1'' @ '', ''), JStr []]) \<and>
   neo4j_config_dict stdlib_loads (Some long_number) =
     Inl (ValueError ''Exceeds the limit (4300 digits) for integer string conversion'') \<and>
   isl (stdlib_loads (replace_quotes deep_list)) = False \<and>
   neo4j_config_dict stdlib_loads (Some deep_list) =
     Inl (RecursionError ''maximum recursion depth exceeded while decoding a JSON array'') \<and>
   stdlib_loads quoted_number = Inl (JSONDecodeError ''Expecting value'') \<and>
   neo4j_config_dict stdlib_loads (Some quoted_number) =
     Inl (ValueError ''Exceeds the limit (4300 digits) for integer string conversion'')"
  by (simp add: neo4j_config_dict_def loads_values replaced)

text \<open>
  Claim C8, amended. For every string value \<open>s\<close> of \<^verbatim>\<open>NEO4J\<close> and whatever \<^verbatim>\<open>json.loads\<close>
  does: decoding the configuration succeeds exactly when \<^verbatim>\<open>json.loads\<close> returns on \<open>s\<close>,
  or raises JSONDecodeError on \<open>s\<close> and returns on \<open>s\<close> with every single quote replaced
  by a double quote. When the first attempt raises JSONDecodeError the outcome is that
  of the second attempt, whatever it is; any other exception of the first attempt
  propagates. An unset variable gives TypeError. The replaced string has the length of
  \<open>s\<close>, a double quote wherever \<open>s\<close> has a single quote, and the character of \<open>s\<close>
  everywhere else.
\<close>

theorem neo4j_config_parsing:
  "(\<not> isl (neo4j_config_dict loads (Some s)) \<longleftrightarrow>
      \<not> isl (loads s) \<or>
      (\<exists>m. loads s = Inl (JSONDecodeError m)) \<and> \<not> isl (loads (replace_quotes s))) \<and>
   (\<forall>m. loads s = Inl (JSONDecodeError m) \<longrightarrow>
      neo4j_config_dict loads (Some s) = loads (replace_quotes s)) \<and>
   (\<forall>x. loads s = Inl x \<and> (\<forall>m. x \<noteq> JSONDecodeError m) \<longrightarrow>
      neo4j_config_dict loads (Some s) = Inl x) \<and>
   neo4j_config_dict loads None = Inl TypeError \<and>
   length (replace_quotes s) = length s \<and>
   (\<forall>i < length s. replace_quotes s ! i = (if s ! i = CHR 0x27 then CHR 0x22 else s ! i))"
proof (cases "loads s")
  case (Inl x)
  then show ?thesis
    by (cases x) (auto simp: neo4j_config_dict_def replace_quotes_def)
next
  case (Inr d)
  then show ?thesis by (auto simp: neo4j_config_dict_def replace_quotes_def)
qed

theorem neo4j_config_parsing_witness:
  "stdlib_loads ''['a']'' = Inl (JSONDecodeError ''Expecting value'') \<and>
   replace_quotes ''['a']'' = [CHR ''['', CHR 0x22, CHR ''a'', CHR 0x22, CHR '']''] \<and>
   neo4j_config_dict stdlib_loads (Some ''['a']'') = Inr (JList [JStr ''a'']) \<and>
   stdlib_loads long_number =
     Inl (ValueError ''Exceeds the limit (4300 digits) for integer string conversion'') \<and>
   neo4j_config_dict stdlib_loads (Some long_number) =
     Inl (ValueError ''Exceeds the limit (4300 digits) for integer string conversion'') \<and>
   neo4j_config_dict stdlib_loads (Some ''not json'') = Inl (JSONDecodeError ''Expecting value'')"
  using neo4j_config_parsing [of stdlib_loads "''['a']''"] neo4j_config_parsing [of stdlib_loads long_number]
    neo4j_config_parsing [of stdlib_loads "''not json''"]
  by (simp add: loads_values replaced)

text \<open>
  Claim C9. When \<^verbatim>\<open>RUN_MODE\<close> (default \<^verbatim>\<open>prod\<close>) is \<^verbatim>\<open>test\<close> after lowercasing, the
  script makes no external call at all and creates no parser: the final state is the
  initial one. Its outcome is normal unless decoding the configuration raised.
\<close>

theorem test_mode_does_nothing:
  assumes "lower (getenv (RUN_MODE e) ''prod'') = ''test''"
  shows "snd (main w e) = initial \<and> trace (snd (main w e)) = [] \<and>
         fst (main w e) =
           (case neo4j_config_dict (json_loads w) (NEO4J e) of Inl x \<Rightarrow> Inl x | Inr cfg \<Rightarrow> Inr ())"
  using assms by (simp add: main_def Let_def initial_def split: sum.splits)

theorem test_mode_does_nothing_witness:
  "lower (getenv (RUN_MODE (example_env\<lparr>RUN_MODE := Some ''TeSt''\<rparr>)) ''prod'') = ''test'' \<and>
   main example_world (example_env\<lparr>RUN_MODE := Some ''TeSt''\<rparr>) = (Inr (), initial)"
proof -
  have "lower ''TeSt'' = ''test''" by code_simp
  then have h: "lower (getenv (RUN_MODE (example_env\<lparr>RUN_MODE := Some ''TeSt''\<rparr>)) ''prod'') = ''test''"
    by (simp add: getenv_def)
  have c: "neo4j_config_dict example_loads (Some example_string) = Inr example_config"
    by (simp add: neo4j_config_dict_def example_loads_def example_string_def replace_quotes_def)
  show ?thesis
    using h c test_mode_does_nothing [OF h, of example_world]
    by (simp add: prod_eq_iff example_world_def example_env_def)
qed

subsection \<open>Downloads\<close>

lemma quiet_append:
  assumes "calls_all (quiet ds) a"
  shows "downloads ds (a @ b) = downloads ds b"
    and "first_check ds (a @ b) = first_check ds b"
    and "version_lookup_raised ds (a @ b) = version_lookup_raised ds b"
proof -
  have 1: "filter (\<lambda>ev. is_download ds (fst ev)) a = []"
    and 2: "filter (\<lambda>ev. fst ev = Latest_Local_Instance ds) a = []"
    and 3: "\<not> list_ex (\<lambda>ev. fst ev = Latest_Remote_Version ds \<and> raised (snd ev)) a"
    using assms by (auto simp: calls_all_def quiet_def list_all_iff list_ex_iff filter_empty_conv)
  show "downloads ds (a @ b) = downloads ds b" by (simp add: downloads_def 1)
  show "first_check ds (a @ b) = first_check ds b" by (simp add: first_check_def 2)
  show "version_lookup_raised ds (a @ b) = version_lookup_raised ds b"
    using 3 by (simp add: version_lookup_raised_def)
qed

lemma no_download_append:
  assumes "calls_all (no_download ds) b" and "first_check ds a \<noteq> None"
  shows "downloads ds (a @ b) = downloads ds a"
    and "first_check ds (a @ b) = first_check ds a"
    and "version_lookup_raised ds (a @ b) = version_lookup_raised ds a"
proof -
  have 1: "filter (\<lambda>ev. is_download ds (fst ev)) b = []"
    and 3: "\<not> list_ex (\<lambda>ev. fst ev = Latest_Remote_Version ds \<and> raised (snd ev)) b"
    using assms(1)
    by (auto simp: calls_all_def no_download_def list_all_iff list_ex_iff filter_empty_conv)
  show "downloads ds (a @ b) = downloads ds a" by (simp add: downloads_def 1)
  show "first_check ds (a @ b) = first_check ds a"
    using assms(2) by (simp add: first_check_def split: list.splits)
  show "version_lookup_raised ds (a @ b) = version_lookup_raised ds a"
    using 3 by (simp add: version_lookup_raised_def)
qed

lemma download_rule_quiet:
  "calls_all (quiet ds) a \<Longrightarrow> download_rule ds (a @ b) = download_rule ds b"
  by (simp add: download_rule_def quiet_append)

lemma download_rule_no_download:
  "calls_all (no_download ds) b \<Longrightarrow> first_check ds a \<noteq> None \<Longrightarrow>
   download_rule ds (a @ b) = download_rule ds a"
  by (simp add: download_rule_def no_download_append)

lemma download_rule_Nil: "download_rule ds []"
  by (simp add: download_rule_def downloads_def first_check_def version_lookup_raised_def)

lemma quiet_no_download: "calls_all (quiet ds) a \<Longrightarrow> calls_all (no_download ds) a"
  by (erule calls_all_mono) (simp add: quiet_def no_download_def)

text \<open>One block, on its own datasource.\<close>

lemma download_block_rule:
  "emits (download_block w root (ds, va, taxids))
     (\<lambda>evs r. download_rule ds evs \<and> (\<not> isl r \<longrightarrow> first_check ds evs \<noteq> None))"
  by (cases va)
     (auto simp: emits_def download_block_def bind_def extern_def return_def Let_def
        download_rule_def downloads_def first_check_def version_lookup_raised_def
        split: reply.splits)

text \<open>One block, seen from another datasource.\<close>

lemma download_block_quiet:
  assumes "fst b \<noteq> ds"
  shows "emits_only (download_block w root b) (calls_all (quiet ds))"
proof (rule calls_mono [OF download_block_calls])
  fix c
  assume "on_datasource (fst b) c"
  with assms show "quiet ds c" by (cases c) (auto simp: quiet_def)
qed

lemma download_blocks_quiet:
  assumes "ds \<notin> fst ` set bs"
  shows "emits_only (for_each (download_block w root) bs) (calls_all (quiet ds))"
  unfolding emits_only_def
proof (rule emits_for_each)
  fix b
  assume "b \<in> set bs"
  with assms have "fst b \<noteq> ds" by auto
  then show "emits (download_block w root b) (\<lambda>evs r. calls_all (quiet ds) evs)"
    using download_block_quiet [of b ds w root] by (simp add: emits_only_def)
qed (simp_all add: calls_all_Nil calls_all_append)

lemma download_blocks_rule:
  assumes "distinct (map fst bs)"
  shows "emits (for_each (download_block w root) bs)
     (\<lambda>evs r. download_rule ds evs \<and>
        (\<not> isl r \<and> ds \<in> fst ` set bs \<longrightarrow> first_check ds evs \<noteq> None))"
  using assms
proof (induction bs)
  case Nil
  show ?case by (simp add: emits_return download_rule_Nil)
next
  case (Cons b bs)
  obtain d va taxids where b: "b = (d, va, taxids)" by (cases b)
  show ?case
  proof (cases "d = ds")
    case True
    with Cons.prems b have "ds \<notin> fst ` set bs" by auto
    then have rest: "emits (for_each (download_block w root) bs) (\<lambda>evs r. calls_all (quiet ds) evs)"
      using download_blocks_quiet [of ds bs w root] by (simp add: emits_only_def)
    show ?thesis
      unfolding for_each.simps b True
      by (rule emits_bind [OF download_block_rule, where ?Q2.0 = "\<lambda>_ evs r. calls_all (quiet ds) evs",
            OF rest])
         (auto simp: download_rule_no_download no_download_append quiet_no_download)
  next
    case False
    then have first: "emits (download_block w root b) (\<lambda>evs r. calls_all (quiet ds) evs)"
      using download_block_quiet [of b ds w root] b by (simp add: emits_only_def)
    from Cons have rest: "emits (for_each (download_block w root) bs)
       (\<lambda>evs r. download_rule ds evs \<and>
          (\<not> isl r \<and> ds \<in> fst ` set bs \<longrightarrow> first_check ds evs \<noteq> None))" by simp
    show ?thesis
      unfolding for_each.simps
      by (rule emits_bind [OF first, where ?Q2.0 = "\<lambda>_ evs r. download_rule ds evs \<and>
          (\<not> isl r \<and> ds \<in> fst ` set bs \<longrightarrow> first_check ds evs \<noteq> None)", OF rest])
         (use False b in \<open>auto simp: download_rule_quiet quiet_append download_rule_Nil
            dest: download_rule_quiet [where b = "[]", simplified]\<close>)
  qed
qed

lemma all_datasources_listed: "ds \<in> fst ` set download_blocks"
  by (cases ds) (simp_all add: download_blocks_def)

lemma download_blocks_distinct: "distinct (map fst download_blocks)"
  by (simp add: download_blocks_def)

lemma run_parsers_no_download:
  "emits_only (run_parsers w root bs ps) (calls_all (no_download ds))"
  by (rule calls_mono [OF run_parsers_calls], case_tac c) (simp_all add: no_download_def)

lemma load_data_calls:
  "emits_only (load_data w g ps) (calls_all (\<lambda>c. is_create_index c \<or> is_merge c))"
  unfolding load_data_def
  by (intro calls_bind calls_mono [OF create_index_calls] calls_mono [OF create_nodesets_calls]
        calls_mono [OF create_relationshipsets_calls]) (simp_all add: is_merge_def)

lemma load_data_no_download: "emits_only (load_data w g ps) (calls_all (no_download ds))"
  by (rule calls_mono [OF load_data_calls], case_tac c) (simp_all add: no_download_def is_merge_def)

lemma after_downloads_no_download:
  "emits_only (bind (run_parsers w root bs ps) (\<lambda>parsers_done. load_data w g parsers_done))
     (calls_all (no_download ds))"
  by (intro calls_bind run_parsers_no_download load_data_no_download)

lemma connect_quiet: "emits_only (connect w cfg) (calls_all (quiet ds))"
  by (rule calls_mono [OF connect_calls], case_tac c) (simp_all add: quiet_def)

lemma download_rule_quiet_only: "calls_all (quiet ds) a \<Longrightarrow> download_rule ds a"
  using download_rule_quiet [of ds a "[]"] by (simp add: download_rule_Nil)

lemma main_else_download_rule:
  "emits_only (main_else w root cfg) (download_rule ds)"
  unfolding main_else_def emits_only_def
proof (rule emits_bind [where ?Q1.0 = "\<lambda>evs r. calls_all (quiet ds) evs"
         and ?Q2.0 = "\<lambda>_ evs r. download_rule ds evs"])
  show "emits (connect w cfg) (\<lambda>evs r. calls_all (quiet ds) evs)"
    using connect_quiet by (simp add: emits_only_def)
next
  fix graph
  have rest: "emits (bind (run_parsers w root parser_blocks [])
                 (\<lambda>parsers_done. load_data w graph parsers_done))
               (\<lambda>evs r. calls_all (no_download ds) evs)" for u :: unit
    using after_downloads_no_download by (simp add: emits_only_def)
  show "emits (bind (for_each (download_block w root) download_blocks)
           (\<lambda>_. bind (run_parsers w root parser_blocks [])
             (\<lambda>parsers_done. load_data w graph parsers_done)))
         (\<lambda>evs r. download_rule ds evs)"
    by (rule emits_bind [OF download_blocks_rule [OF download_blocks_distinct],
          where ?Q2.0 = "\<lambda>_ evs r. calls_all (no_download ds) evs", OF rest])
       (auto simp: all_datasources_listed download_rule_no_download)
qed (auto simp: download_rule_quiet download_rule_quiet_only)

lemma main_download_rule: "download_rule ds (trace (snd (main w e)))"
  using main_trace_cases [of w e]
    emits_onlyD [where s = initial, OF main_else_download_rule [where w = w and ds = ds]]
  by (auto simp: download_rule_Nil)




lemma table_versioned:
  "(ds, va, taxids) \<in> set download_blocks \<Longrightarrow> versioned ds \<longleftrightarrow> va = Latest_Remote"
  by (auto simp: download_blocks_def versioned_def)








lemma download_block_lookups:
  assumes "b \<in> set download_blocks" and "\<not> versioned ds"
  shows "emits_only (download_block w root b) (calls_all (\<lambda>c. c \<noteq> Latest_Remote_Version ds))"
proof (cases "fst b = ds")
  case False
  show ?thesis
    by (rule calls_mono [OF download_block_calls], case_tac c) (use False in auto)
next
  case True
  obtain d va taxids where f: "b = (d, va, taxids)" by (cases b)
  with True assms table_versioned [of d va taxids] have b: "b = (ds, No_Version, taxids)"
    by (cases va) auto
  show ?thesis
    by (subst b, unfold download_block_def prod.case version_arg.case)
       (intro calls_bind calls_if calls_extern calls_return; simp)
qed

lemma main_else_lookups:
  assumes "\<not> versioned ds"
  shows "emits_only (main_else w root cfg) (calls_all (\<lambda>c. c \<noteq> Latest_Remote_Version ds))"
  unfolding main_else_def
proof (intro calls_bind)
  show "emits_only (connect w cfg) (calls_all (\<lambda>c. c \<noteq> Latest_Remote_Version ds))"
    by (rule calls_mono [OF connect_calls], case_tac c) simp_all
  show "emits_only (run_parsers w root parser_blocks [])
          (calls_all (\<lambda>c. c \<noteq> Latest_Remote_Version ds))"
    by (rule calls_mono [OF run_parsers_calls], case_tac c) simp_all
  show "emits_only (load_data w g ps) (calls_all (\<lambda>c. c \<noteq> Latest_Remote_Version ds))" for g ps
    by (rule calls_mono [OF load_data_calls], case_tac c) (simp_all add: is_merge_def)
  show "emits_only (for_each (download_block w root) download_blocks)
          (calls_all (\<lambda>c. c \<noteq> Latest_Remote_Version ds))"
    unfolding emits_only_def
    by (rule emits_for_each)
       (use download_block_lookups [OF _ assms] in
          \<open>simp_all add: emits_only_def calls_all_Nil calls_all_append\<close>)
qed

lemma main_no_lookup_raised:
  assumes "\<not> versioned ds"
  shows "\<not> version_lookup_raised ds (trace (snd (main w e)))"
proof -
  have "\<not> version_lookup_raised ds a" if "calls_all (\<lambda>c. c \<noteq> Latest_Remote_Version ds) a" for a
    using that by (auto simp: version_lookup_raised_def calls_all_def list_all_iff list_ex_iff)
  then show ?thesis
    using main_trace_cases [of w e]
      emits_onlyD [where s = initial, OF main_else_lookups [OF assms, where w = w]]
    by (auto simp: version_lookup_raised_def)
qed

text \<open>
  Claim C10, as stated, says that \<^verbatim>\<open>download\<close> is invoked exactly when
  \<^verbatim>\<open>latest_local_instance()\<close> returns a falsy value. When the version lookup of Ensembl
  raises, the check has returned \<^verbatim>\<open>None\<close> and yet no download of Ensembl is invoked.
\<close>

theorem download_iff_falsy_counterexample:
  "returned_falsy (first_check Ensembl (trace (snd (main remote_down_world example_env)))) \<and>
   downloads Ensembl (trace (snd (main remote_down_world example_env))) = []"
  by (simp add: remote_down_run) (simp add: remote_down_trace_def first_check_def downloads_def)

text \<open>
  Claim C10, amended. In every run and for each datasource, \<^verbatim>\<open>download\<close> is invoked at
  most once, and it is invoked exactly when the check of the download block (the first
  \<^verbatim>\<open>latest_local_instance()\<close> call on the adapter) returned a falsy value and no
  \<^verbatim>\<open>latest_remote_version()\<close> call on the adapter raised. Such a call is made, and so
  can raise, for Ensembl and RefSeq only.
\<close>

theorem download_iff_no_local_instance:
  "length (downloads ds (trace (snd (main w e)))) \<le> 1 \<and>
   (downloads ds (trace (snd (main w e))) \<noteq> [] \<longleftrightarrow>
      returned_falsy (first_check ds (trace (snd (main w e)))) \<and>
      \<not> version_lookup_raised ds (trace (snd (main w e)))) \<and>
   (version_lookup_raised ds (trace (snd (main w e))) \<longrightarrow> ds = Ensembl \<or> ds = Refseq)"
  using main_download_rule [of ds w e] main_no_lookup_raised [of ds w e]
  by (auto simp: download_rule_def versioned_def)

theorem download_iff_no_local_instance_witness:
  "downloads Ensembl (trace (snd (main example_world example_env))) \<noteq> [] \<and>
   returned_falsy (first_check Ensembl (trace (snd (main example_world example_env)))) \<and>
   \<not> version_lookup_raised Ensembl (trace (snd (main example_world example_env))) \<and>
   downloads NcbiGene (trace (snd (main example_world example_env))) = [] \<and>
   \<not> returned_falsy (first_check NcbiGene (trace (snd (main example_world example_env)))) \<and>
   downloads Ensembl (trace (snd (main remote_down_world example_env))) = [] \<and>
   version_lookup_raised Ensembl (trace (snd (main remote_down_world example_env)))"
  using download_iff_no_local_instance [of Ensembl example_world example_env]
    download_iff_no_local_instance [of NcbiGene example_world example_env]
    download_iff_no_local_instance [of Ensembl remote_down_world example_env]
  by (simp add: example_run remote_down_run)
     (simp add: example_trace_def remote_down_trace_def first_check_def downloads_def
        version_lookup_raised_def)

section \<open>Proofs about the modelled NodeSets and store\<close>

subsection \<open>First matches\<close>

lemma first_index_None: "first_index P xs = None \<longleftrightarrow> (\<forall>x \<in> set xs. \<not> P x)"
  by (induction xs) auto






subsection \<open>Deduplicated records have distinct keys\<close>

lemma collapse_keys:
  assumes "\<And>x r. key x = key r \<Longrightarrow> key (comb x r) = key x"
  shows "set (map key (collapse key comb r acc)) = insert (key r) (set (map key acc))"
  by (induction acc) (use assms in auto)

lemma collapse_distinct:
  assumes "\<And>x r. key x = key r \<Longrightarrow> key (comb x r) = key x"
    and "distinct (map key acc)"
  shows "distinct (map key (collapse key comb r acc))"
  using assms(2)
proof (induction acc)
  case Nil
  show ?case by simp
next
  case (Cons x acc)
  have "set (map key (collapse key comb r acc)) = insert (key r) (set (map key acc))"
    by (rule collapse_keys [where key = key and comb = comb]) (rule assms(1))
  with Cons show ?case by (auto simp: assms(1))
qed

lemma fold_collapse_distinct:
  assumes "\<And>x r. key x = key r \<Longrightarrow> key (comb x r) = key x"
  shows "distinct (map key acc) \<Longrightarrow> distinct (map key (fold (collapse key comb) rs acc))"
proof (induction rs arbitrary: acc)
  case Nil
  then show ?case by simp
next
  case (Cons r rs)
  have "distinct (map key (collapse key comb r acc))"
  proof (rule collapse_distinct [where key = key and comb = comb])
    show "\<And>x r. key x = key r \<Longrightarrow> key (comb x r) = key x" by (rule assms)
    show "distinct (map key acc)" by (rule Cons.prems)
  qed
  then show ?case by (simp add: Cons.IH)
qed

lemma dedup_distinct:
  assumes "\<And>x r. key x = key r \<Longrightarrow> key (comb x r) = key x"
  shows "distinct (map key (dedup key comb rs))"
  unfolding dedup_def
proof (rule fold_collapse_distinct [where key = key and comb = comb])
  show "\<And>x r. key x = key r \<Longrightarrow> key (comb x r) = key x" by (rule assms)
  show "distinct (map key [])" by simp
qed

lemma key_values_combine:
  "key_values ks x = key_values ks r \<Longrightarrow> key_values ks (combine x r) = key_values ks x"
  by (auto simp: key_values_def combine_def)

lemma deduplicate_distinct: "distinct (map (key_values ks) (deduplicate ks rs))"
  unfolding deduplicate_def
  by (rule dedup_distinct [where key = "key_values ks" and comb = combine])
     (rule key_values_combine)

subsection \<open>A sequence of upserts run twice\<close>















subsection \<open>Overwriting\<close>


subsection \<open>Node upserts\<close>





subsection \<open>Edge upserts\<close>







subsection \<open>Merging a container twice\<close>





subsection \<open>Deduplication\<close>

text \<open>The policy, field by field, over the whole scan.\<close>

lemma latest_snoc: "latest f (rs @ [r]) = (if r f = Null then latest f rs else r f)"
  by (induction rs) auto

lemma collapse_same:
  assumes "x \<in> set (collapse key comb r acc)"
    and "distinct (map key acc)"
  shows "(key x \<noteq> key r \<and> x \<in> set acc) \<or>
         (x = r \<and> key r \<notin> key ` set acc) \<or>
         (\<exists>y \<in> set acc. key y = key r \<and> x = comb y r)"
  using assms
proof (induction acc)
  case Nil
  then show ?case by simp
next
  case (Cons a acc)
  show ?case
  proof (cases "key a = key r")
    case True
    with Cons.prems have "x = comb a r \<or> x \<in> set acc" by simp
    then show ?thesis
    proof
      assume "x = comb a r"
      with True show ?thesis by simp
    next
      assume x: "x \<in> set acc"
      then have "key x \<in> key ` set acc" by (rule imageI)
      with Cons.prems(2) have "key x \<noteq> key a" by auto
      with True x show ?thesis by simp
    qed
  next
    case False
    with Cons.prems have "x = a \<or> x \<in> set (collapse key comb r acc)" by simp
    then show ?thesis
    proof
      assume "x = a"
      with False show ?thesis by simp
    next
      assume "x \<in> set (collapse key comb r acc)"
      with Cons.IH Cons.prems(2) False show ?thesis by auto
    qed
  qed
qed

lemma fold_collapse_latest:
  assumes "distinct (map (key_values ks) acc)"
    and "key_values ks ` set acc = key_values ks ` set seen"
    and "\<forall>x \<in> set acc. \<forall>f. x f = latest f (filter (\<lambda>y. key_values ks y = key_values ks x) seen)"
  shows "\<forall>x \<in> set (fold (collapse (key_values ks) combine) rs acc). \<forall>f.
           x f = latest f (filter (\<lambda>y. key_values ks y = key_values ks x) (seen @ rs))"
  using assms
proof (induction rs arbitrary: acc seen)
  case Nil
  then show ?case by simp
next
  case (Cons r rs)
  let ?k = "key_values ks"
  let ?acc = "collapse ?k combine r acc"
  have d: "distinct (map ?k ?acc)"
    by (rule collapse_distinct [where key = ?k and comb = combine])
       (simp_all add: key_values_combine Cons.prems(1))
  have "set (map ?k ?acc) = insert (?k r) (set (map ?k acc))"
    by (rule collapse_keys [where key = ?k and comb = combine]) (simp add: key_values_combine)
  then have k: "?k ` set ?acc = ?k ` set (seen @ [r])"
    using Cons.prems(2) by auto
  have l: "\<forall>x \<in> set ?acc. \<forall>f. x f = latest f (filter (\<lambda>y. ?k y = ?k x) (seen @ [r]))"
  proof (intro ballI allI)
    fix x f
    assume "x \<in> set ?acc"
    then consider (old) "?k x \<noteq> ?k r" "x \<in> set acc"
      | (new) "x = r" "?k r \<notin> ?k ` set acc"
      | (upd) y where "y \<in> set acc" "?k y = ?k r" "x = combine y r"
      using collapse_same [of x ?k combine r acc] Cons.prems(1) by blast
    then show "x f = latest f (filter (\<lambda>y. ?k y = ?k x) (seen @ [r]))"
    proof cases
      case old
      then show ?thesis using Cons.prems(3) by auto
    next
      case new
      have "?k y \<noteq> ?k r" if "y \<in> set seen" for y
      proof
        assume "?k y = ?k r"
        with that have "?k r \<in> ?k ` set seen" by (metis imageI)
        with new(2) Cons.prems(2) show False by simp
      qed
      then have "filter (\<lambda>y. ?k y = ?k r) seen = []"
        by (simp add: filter_empty_conv)
      with new show ?thesis by simp
    next
      case upd
      then have kx: "?k x = ?k y" by (simp add: key_values_combine)
      from upd Cons.prems(3) have "y f = latest f (filter (\<lambda>z. ?k z = ?k y) seen)" by blast
      with upd kx show ?thesis by (simp add: latest_snoc combine_def)
    qed
  qed
  from Cons.IH [OF d k l] show ?case by simp
qed

lemma deduplicate_latest:
  "r \<in> set (deduplicate ks rs) \<Longrightarrow>
   r f = latest f (filter (\<lambda>y. key_values ks y = key_values ks r) rs)"
  using fold_collapse_latest [of ks "[]" "[]" rs]
  by (simp add: deduplicate_def dedup_def)

lemma fold_collapse_keys:
  assumes "\<And>x r. key x = key r \<Longrightarrow> key (comb x r) = key x"
  shows "set (map key (fold (collapse key comb) rs acc)) = set (map key acc) \<union> set (map key rs)"
proof (induction rs arbitrary: acc)
  case Nil
  show ?case by simp
next
  case (Cons r rs)
  have "set (map key (collapse key comb r acc)) = insert (key r) (set (map key acc))"
    by (rule collapse_keys [where key = key and comb = comb]) (rule assms)
  with Cons [of "collapse key comb r acc"] show ?case by auto
qed

lemma deduplicate_keys:
  "set (map (key_values ks) (deduplicate ks rs)) = set (map (key_values ks) rs)"
  unfolding deduplicate_def dedup_def
  using fold_collapse_keys [where key = "key_values ks" and comb = combine and acc = "[]" and rs = rs]
  by (simp add: key_values_combine)

text \<open>
  Claim C6. With merge key \<^verbatim>\<open>id\<close>, deduplicating the Records \<^verbatim>\<open>{id:1,name:"a"}\<close>,
  \<^verbatim>\<open>{id:1,name:None}\<close>, \<^verbatim>\<open>{id:1,city:"X"}\<close> yields exactly one Record,
  \<^verbatim>\<open>{id:1,name:"a",city:"X"}\<close>. And for every list of Records and every list of merge
  keys: the deduplicated Records have pairwise different merge-key values, which are
  the merge-key values that occur in the input, and each field of a deduplicated
  Record holds the value of the last input Record with the same merge-key values in
  which that field is not null (null when there is none): a later non-null value
  overwrites an earlier one, and null never overwrites a non-null value.
\<close>

theorem deduplicate_last_non_null_wins:
  "deduplicate [''id'']
     [fields_of [(''id'', Num 1), (''name'', Str ''a'')],
      fields_of [(''id'', Num 1), (''name'', Null)],
      fields_of [(''id'', Num 1), (''city'', Str ''X'')]] =
     [fields_of [(''id'', Num 1), (''name'', Str ''a''), (''city'', Str ''X'')]] \<and>
   distinct (map (key_values ks) (deduplicate ks rs)) \<and>
   set (map (key_values ks) (deduplicate ks rs)) = set (map (key_values ks) rs) \<and>
   (\<forall>r \<in> set (deduplicate ks rs). \<forall>f.
      r f = latest f (filter (\<lambda>x. key_values ks x = key_values ks r) rs))"
proof -
  have "deduplicate [''id'']
     [fields_of [(''id'', Num 1), (''name'', Str ''a'')],
      fields_of [(''id'', Num 1), (''name'', Null)],
      fields_of [(''id'', Num 1), (''city'', Str ''X'')]] =
     [fields_of [(''id'', Num 1), (''name'', Str ''a''), (''city'', Str ''X'')]]"
    by (simp add: deduplicate_def dedup_def key_values_def fields_of_def)
       (auto simp: fun_eq_iff combine_def fields_of_def)
  then show ?thesis
    using deduplicate_keys [of ks rs]
    by (simp add: deduplicate_distinct deduplicate_latest)
qed

theorem deduplicate_last_non_null_wins_witness:
  "deduplicate [''id'']
     [fields_of [(''id'', Num 1), (''name'', Str ''a''), (''city'', Str ''X'')],
      fields_of [(''id'', Num 2), (''name'', Str ''b'')],
      fields_of [(''id'', Num 1), (''name'', Str ''c''), (''city'', Null)]] =
     [fields_of [(''id'', Num 1), (''name'', Str ''c''), (''city'', Str ''X'')],
      fields_of [(''id'', Num 2), (''name'', Str ''b'')]] \<and>
   latest ''name''
     [fields_of [(''id'', Num 1), (''name'', Str ''a''), (''city'', Str ''X'')],
      fields_of [(''id'', Num 1), (''name'', Str ''c''), (''city'', Null)]] = Str ''c'' \<and>
   latest ''city''
     [fields_of [(''id'', Num 1), (''name'', Str ''a''), (''city'', Str ''X'')],
      fields_of [(''id'', Num 1), (''name'', Str ''c''), (''city'', Null)]] = Str ''X''"
proof -
  have "deduplicate [''id'']
     [fields_of [(''id'', Num 1), (''name'', Str ''a''), (''city'', Str ''X'')],
      fields_of [(''id'', Num 2), (''name'', Str ''b'')],
      fields_of [(''id'', Num 1), (''name'', Str ''c''), (''city'', Null)]] =
     [fields_of [(''id'', Num 1), (''name'', Str ''c''), (''city'', Str ''X'')],
      fields_of [(''id'', Num 2), (''name'', Str ''b'')]]"
    by (simp add: deduplicate_def dedup_def key_values_def fields_of_def)
       (auto simp: fun_eq_iff combine_def fields_of_def)
  then show ?thesis
    using deduplicate_last_non_null_wins [of "[''id'']" "[fields_of [(''id'', Num 1), (''name'', Str ''a''), (''city'', Str ''X'')],
      fields_of [(''id'', Num 2), (''name'', Str ''b'')],
      fields_of [(''id'', Num 1), (''name'', Str ''c''), (''city'', Null)]]"]
    by (simp add: fields_of_def)
qed

end
